theory Spec2Isabelle
  imports Complex_Main "HOL-Library.Monad_Syntax" "HOL-Library.Multiset"
begin

section \<open>JavaScript numbers\<close>

text \<open>
  A JavaScript \<^verbatim>\<open>number\<close> is modelled as a real number extended with the three special
  values of IEEE arithmetic. The sign of zero is not modelled: a division by zero divides
  by \<^verbatim>\<open>+0\<close>.
\<close>

datatype jsnum = Fin real | PInf | NInf | NaN

text \<open>
  The number value of a real: the nearest double, ties to the even significand, and an
  infinity from \<^verbatim>\<open>2^1024 - 2^970\<close> on. A double is an integer of at most 53 bits times
  a power of two; the unit in the last place of a number of exponent \<^verbatim>\<open>e\<close> is
  \<^verbatim>\<open>2^(e - 52)\<close>, and the least exponent is -1022. This is how a product and a number
  read from decimal text are rounded. Sums, differences, quotients, squares, square
  roots and exponentials are left exact.
\<close>

definition round_half_even :: "real \<Rightarrow> int" where
  "round_half_even x =
     (let f = \<lfloor>x\<rfloor> in
      if x - of_int f < 1 / 2 then f
      else if 1 / 2 < x - of_int f then f + 1
      else if even f then f else f + 1)"

definition to_double :: "real \<Rightarrow> jsnum" where
  "to_double x =
     (if x = 0 then Fin 0
      else
        let e = max \<lfloor>log 2 \<bar>x\<bar>\<rfloor> (- 1022);
            ulp = 2 powr of_int (e - 52);
            r = of_int (round_half_even (x / ulp)) * ulp
        in if 2 ^ 1024 \<le> \<bar>r\<bar> then (if 0 < x then PInf else NInf) else Fin r)"

fun jneg :: "jsnum \<Rightarrow> jsnum" where
  "jneg (Fin a) = Fin (- a)"
| "jneg PInf = NInf"
| "jneg NInf = PInf"
| "jneg NaN = NaN"

fun jadd :: "jsnum \<Rightarrow> jsnum \<Rightarrow> jsnum" where
  "jadd NaN _ = NaN"
| "jadd _ NaN = NaN"
| "jadd (Fin a) (Fin b) = Fin (a + b)"
| "jadd (Fin a) y = y"
| "jadd x (Fin b) = x"
| "jadd x y = (if x = y then x else NaN)"

definition jsub :: "jsnum \<Rightarrow> jsnum \<Rightarrow> jsnum" where
  "jsub x y = jadd x (jneg y)"

fun jmul :: "jsnum \<Rightarrow> jsnum \<Rightarrow> jsnum" where
  "jmul NaN _ = NaN"
| "jmul _ NaN = NaN"
| "jmul (Fin a) (Fin b) = to_double (a * b)"
| "jmul (Fin a) y = (if a = 0 then NaN else if 0 < a then y else jneg y)"
| "jmul x (Fin b) = (if b = 0 then NaN else if 0 < b then x else jneg x)"
| "jmul x y = (if x = y then PInf else NInf)"

fun jdiv :: "jsnum \<Rightarrow> jsnum \<Rightarrow> jsnum" where
  "jdiv NaN _ = NaN"
| "jdiv _ NaN = NaN"
| "jdiv (Fin a) (Fin b) =
     (if b = 0 then (if a = 0 then NaN else if 0 < a then PInf else NInf)
      else Fin (a / b))"
| "jdiv (Fin a) y = Fin 0"
| "jdiv x (Fin b) = (if 0 \<le> b then x else jneg x)"
| "jdiv x y = NaN"

text \<open>\<^verbatim>\<open>Math.sqrt\<close>, \<^verbatim>\<open>Math.exp\<close> and \<^verbatim>\<open>Math.pow(x, 2)\<close>.\<close>

fun jsqrt :: "jsnum \<Rightarrow> jsnum" where
  "jsqrt (Fin a) = (if a < 0 then NaN else Fin (sqrt a))"
| "jsqrt PInf = PInf"
| "jsqrt NInf = NaN"
| "jsqrt NaN = NaN"

fun jexp :: "jsnum \<Rightarrow> jsnum" where
  "jexp (Fin a) = Fin (exp a)"
| "jexp PInf = PInf"
| "jexp NInf = Fin 0"
| "jexp NaN = NaN"

fun jpow2 :: "jsnum \<Rightarrow> jsnum" where
  "jpow2 (Fin a) = Fin (a * a)"
| "jpow2 PInf = PInf"
| "jpow2 NInf = PInf"
| "jpow2 NaN = NaN"

text \<open>The comparisons \<^verbatim>\<open><=\<close> and \<^verbatim>\<open><\<close>: every comparison with \<^verbatim>\<open>NaN\<close> is false.\<close>

fun jle :: "jsnum \<Rightarrow> jsnum \<Rightarrow> bool" where
  "jle NaN _ = False"
| "jle _ NaN = False"
| "jle NInf _ = True"
| "jle _ PInf = True"
| "jle (Fin a) (Fin b) = (a \<le> b)"
| "jle _ _ = False"

fun jlt :: "jsnum \<Rightarrow> jsnum \<Rightarrow> bool" where
  "jlt NaN _ = False"
| "jlt _ NaN = False"
| "jlt PInf _ = False"
| "jlt _ NInf = False"
| "jlt (Fin a) (Fin b) = (a < b)"
| "jlt _ _ = True"

definition jgt :: "jsnum \<Rightarrow> jsnum \<Rightarrow> bool" where
  "jgt x y = jlt y x"

definition isNaN :: "jsnum \<Rightarrow> bool" where
  "isNaN x = (x = NaN)"

definition isFinite :: "jsnum \<Rightarrow> bool" where
  "isFinite x = (case x of Fin _ \<Rightarrow> True | _ \<Rightarrow> False)"

section \<open>utils/statistics.ts\<close>

text \<open>The points handed to the statistics module: \<^verbatim>\<open>{ time: number; value: number }\<close>.\<close>

record sample_point =
  p_time :: jsnum
  p_value :: jsnum

record statistics =
  mean :: jsnum
  standardDeviation :: jsnum

text \<open>
  \<^verbatim>\<open>calculateStatistics\<close>: both sums are \<^verbatim>\<open>reduce\<close> calls starting at 0, that is left
  folds; \<^verbatim>\<open>n\<close> is the length of the array.
\<close>

definition calculateStatistics :: "sample_point list \<Rightarrow> statistics" where
  "calculateStatistics data =
     (let n = Fin (real (length data));
          m = jdiv (foldl (\<lambda>acc d. jadd acc (p_value d)) (Fin 0) data) n;
          variance = jdiv (foldl (\<lambda>acc d. jadd acc (jpow2 (jsub (p_value d) m))) (Fin 0) data) n
      in \<lparr>mean = m, standardDeviation = jsqrt variance\<rparr>)"

definition normalDistribution :: "jsnum \<Rightarrow> jsnum \<Rightarrow> jsnum \<Rightarrow> jsnum" where
  "normalDistribution x m sd =
     jmul (jdiv (Fin 1) (jmul sd (jsqrt (jmul (Fin 2) (Fin pi)))))
          (jexp (jmul (Fin (- (1 / 2))) (jpow2 (jdiv (jsub x m) sd))))"

text \<open>
  The \<^verbatim>\<open>for\<close> loop of \<^verbatim>\<open>generateNormalDistributionData\<close>. Its state is the running
  \<^verbatim>\<open>x\<close>, the two arrays and \<^verbatim>\<open>maxYDistrib\<close>. Nothing in the loop bounds the number of
  rounds, so the loop is a partial function: \<^const>\<open>None\<close> is a loop that never ends, which
  an engine breaks off only by failing, when an array can grow no further.
\<close>

partial_function (option) normal_loop ::
  "jsnum \<Rightarrow> jsnum \<Rightarrow> jsnum \<Rightarrow> jsnum \<Rightarrow> jsnum \<Rightarrow> jsnum list \<Rightarrow> jsnum list \<Rightarrow> jsnum
     \<Rightarrow> (jsnum list \<times> jsnum list \<times> jsnum) option" where
  "normal_loop m sd dataLength binSize x xValues yValues maxYDistrib =
     (if jle x (jadd m (jmul (Fin 5) sd))
      then normal_loop m sd dataLength binSize (jadd x binSize)
             (xValues @ [x])
             (yValues @ [jmul (jmul (normalDistribution x m sd) dataLength) binSize])
             (if jgt (jmul (jmul (normalDistribution x m sd) dataLength) binSize) maxYDistrib
              then jmul (jmul (normalDistribution x m sd) dataLength) binSize
              else maxYDistrib)
      else Some (xValues, yValues, maxYDistrib))"

text \<open>
  \<^verbatim>\<open>generateNormalDistributionData\<close>. The two arrays have the same length, so pairing
  \<^verbatim>\<open>xValues[i]\<close> with \<^verbatim>\<open>scaledYValues[i]\<close> is \<^const>\<open>zip\<close>.
\<close>

definition generateNormalDistributionData ::
  "jsnum \<Rightarrow> jsnum \<Rightarrow> jsnum \<Rightarrow> jsnum \<Rightarrow> jsnum \<Rightarrow> (jsnum \<times> jsnum) list option" where
  "generateNormalDistributionData m sd dataLength binSize maxY =
     (if jle dataLength (Fin 1) then Some []
      else case normal_loop m sd dataLength binSize (jsub m (jmul (Fin 5) sd)) [] [] (Fin 0) of
             None \<Rightarrow> None
           | Some (xValues, yValues, maxYDistrib) \<Rightarrow>
               Some (zip xValues (map (\<lambda>y. jmul y (jdiv maxY maxYDistrib)) yValues)))"

section \<open>Errors and \<^verbatim>\<open>Array.prototype.sort\<close>\<close>

text \<open>
  Everything the code can throw. \<^verbatim>\<open>NetworkError\<close> is a rejected \<^verbatim>\<open>fetch\<close>,
  \<^verbatim>\<open>SyntaxError\<close> a response body that \<^verbatim>\<open>res.json()\<close> cannot parse, \<^verbatim>\<open>TypeError\<close> a
  property read on \<^verbatim>\<open>undefined\<close> or \<^verbatim>\<open>null\<close>, \<^verbatim>\<open>RangeError\<close> an invalid date, digit count
  or array length. The last two are the \<^verbatim>\<open>new Error(...)\<close> of \<^verbatim>\<open>getDataAndDraw\<close>; the
  second carries the mean its message prints.
\<close>

datatype js_error =
  NetworkError | SyntaxError | TypeError | RangeError
  | NoDataAvailable | NotEnoughData jsnum

text \<open>
  \<^verbatim>\<open>xs.sort(comparefn)\<close> is a stable sort; an element moves behind another one only where
  the comparison function returns a number above zero, and a \<^verbatim>\<open>NaN\<close> result counts as
  zero. Insertion sort is the model: with a consistent comparison function every stable
  sort returns the same array.
\<close>

fun sort_insert :: "('a \<Rightarrow> 'a \<Rightarrow> jsnum) \<Rightarrow> 'a \<Rightarrow> 'a list \<Rightarrow> 'a list" where
  "sort_insert c x [] = [x]"
| "sort_insert c x (y # ys) =
     (if jgt (c x y) (Fin 0) then y # sort_insert c x ys else x # y # ys)"

definition Array_sort :: "('a \<Rightarrow> 'a \<Rightarrow> jsnum) \<Rightarrow> 'a list \<Rightarrow> 'a list" where
  "Array_sort c xs = foldr (sort_insert c) xs []"

text \<open>\<^verbatim>\<open>Math.max(...xs)\<close>: \<^verbatim>\<open>-Infinity\<close> for no argument, \<^verbatim>\<open>NaN\<close> if an argument is.\<close>

definition Math_max :: "jsnum list \<Rightarrow> jsnum" where
  "Math_max xs =
     foldl (\<lambda>a b. if isNaN a \<or> isNaN b then NaN else if jlt a b then b else a) NInf xs"

section \<open>services/chart.service.ts: \<^verbatim>\<open>getDataAndDraw\<close> up to the drawing\<close>

text \<open>
  The argument \<^verbatim>\<open>calculateStatistics\<close> is called with, or the error thrown before the
  call. \<^verbatim>\<open>data\<close> is what \<^verbatim>\<open>getAllRawMetrics\<close> resolved to (\<^const>\<open>None\<close> is \<^verbatim>\<open>null\<close>). The
  two emptiness checks come first, the \<^verbatim>\<open>ignoreZero\<close> filter after them.
\<close>

definition statistics_argument ::
  "sample_point list option \<Rightarrow> bool \<Rightarrow> js_error + sample_point list" where
  "statistics_argument data ignoreZero =
     (case data of
        None \<Rightarrow> Inl NoDataAvailable
      | Some d \<Rightarrow>
          if length d = 0 then Inl NoDataAvailable
          else Inr (if ignoreZero then filter (\<lambda>p. p_value p \<noteq> Fin 0) d else d))"

text \<open>\<^verbatim>\<open>valueCounts.set(value, (valueCounts.get(value) || 0) + 1)\<close> on a \<^verbatim>\<open>Map\<close>, which
  keeps its keys in the order of their first insertion.\<close>

fun count_value :: "(jsnum \<times> nat) list \<Rightarrow> jsnum \<Rightarrow> (jsnum \<times> nat) list" where
  "count_value [] v = [(v, 1)]"
| "count_value ((k, c) # kcs) v =
     (if k = v then (k, c + 1) # kcs else (k, c) # count_value kcs v)"

record chart_data =
  stats :: statistics
  histogramData :: "(jsnum \<times> nat) list"
  normalData :: "(jsnum \<times> jsnum) list"

text \<open>
  \<^verbatim>\<open>getDataAndDraw\<close> from the data to the check of the generated curve: \<^const>\<open>None\<close> when
  the curve's loop never ends, an error, or what the chart is drawn from.
\<close>

definition getDataAndDraw ::
  "sample_point list option \<Rightarrow> bool \<Rightarrow> (js_error + chart_data) option" where
  "getDataAndDraw fetched ignoreZero =
     (case statistics_argument fetched ignoreZero of
        Inl e \<Rightarrow> Some (Inl e)
      | Inr d \<Rightarrow>
          let st = calculateStatistics d;
              data = Array_sort (\<lambda>a b. jsub (p_value a) (p_value b)) d;
              valueCounts = foldl count_value [] (map p_value data);
              histogram = Array_sort (\<lambda>a b. jsub (fst a) (fst b)) valueCounts;
              binSize = jdiv (standardDeviation st) (Fin 2);
              maxY = Math_max (map (\<lambda>h. Fin (real (snd h))) histogram)
          in (case generateNormalDistributionData (mean st) (standardDeviation st)
                     (Fin (real (length data))) binSize maxY of
                None \<Rightarrow> None
              | Some nd \<Rightarrow>
                  if length nd = 0 then Some (Inl (NotEnoughData (mean st)))
                  else Some (Inr \<lparr>stats = st, histogramData = histogram, normalData = nd\<rparr>)))"

section \<open>Dates: \<^verbatim>\<open>toISOString\<close> and \<^verbatim>\<open>Date.parse\<close>\<close>

text \<open>
  Time values are integral milliseconds since the epoch. The calendar follows the
  ECMAScript definitions: \<^verbatim>\<open>DayFromYear\<close>, the year of a day as the largest year that
  starts on or before it, and the month and the date from the day within the year.
\<close>

definition DayFromYear :: "int \<Rightarrow> int" where
  "DayFromYear y = 365 * (y - 1970) + (y - 1969) div 4 - (y - 1901) div 100 + (y - 1601) div 400"

definition InLeapYear :: "int \<Rightarrow> int" where
  "InLeapYear y = (if y mod 4 = 0 \<and> (y mod 100 \<noteq> 0 \<or> y mod 400 = 0) then 1 else 0)"

lemma div_step:
  fixes a n :: int
  assumes "1 < n"
  shows "(a + 1) div n = a div n + (if (a + 1) mod n = 0 then 1 else 0)"
proof -
  have r: "0 \<le> a mod n" "a mod n < n" using assms by simp_all
  have one: "1 div n = 0" "1 mod n = 1" using assms by simp_all
  have d: "(a + 1) div n = a div n + (a mod n + 1) div n"
    unfolding div_add1_eq [of a 1 n] one by simp
  have m: "(a + 1) mod n = (a mod n + 1) mod n"
    unfolding mod_add_eq [of a n 1, symmetric] one by simp
  show ?thesis
  proof (cases "a mod n + 1 = n")
    case True
    then show ?thesis unfolding d m using assms by simp
  next
    case False
    then have lt: "a mod n + 1 < n" using r by simp
    have "(a mod n + 1) div n = 0" "(a mod n + 1) mod n = a mod n + 1"
      using lt r by simp_all
    then show ?thesis unfolding d m using r by simp
  qed
qed

lemma mod_shift:
  fixes y n k :: int
  shows "(y - n * k) mod n = y mod n"
proof -
  have "(y + n * (- k)) mod n = y mod n" by (rule mod_mult_self2)
  then show ?thesis by simp
qed

lemma DayFromYear_Suc: "DayFromYear (y + 1) = DayFromYear y + 365 + InLeapYear y"
proof -
  define p4 p100 p400 where "p4 \<longleftrightarrow> y mod 4 = 0" and "p100 \<longleftrightarrow> y mod 100 = 0"
    and "p400 \<longleftrightarrow> y mod 400 = 0"
  define A4 A100 A400 where "A4 = (y - 1969) div 4" and "A100 = (y - 1901) div 100"
    and "A400 = (y - 1601) div 400"
  have e4: "y + 1 - 1969 = y - 1969 + 1" "y - 1969 + 1 = y - 4 * 492"
    and e100: "y + 1 - 1901 = y - 1901 + 1" "y - 1901 + 1 = y - 100 * 19"
    and e400: "y + 1 - 1601 = y - 1601 + 1" "y - 1601 + 1 = y - 400 * 4" by simp_all
  have m4: "(y - 1969 + 1) mod 4 = 0 \<longleftrightarrow> p4"
    unfolding e4 mod_shift p4_def ..
  have m100: "(y - 1901 + 1) mod 100 = 0 \<longleftrightarrow> p100"
    unfolding e100 mod_shift p100_def ..
  have m400: "(y - 1601 + 1) mod 400 = 0 \<longleftrightarrow> p400"
    unfolding e400 mod_shift p400_def ..
  have a: "(y + 1 - 1969) div 4 = A4 + (if p4 then 1 else 0)"
    unfolding e4(1) A4_def m4 [symmetric] by (rule div_step) simp
  have b: "(y + 1 - 1901) div 100 = A100 + (if p100 then 1 else 0)"
    unfolding e100(1) A100_def m100 [symmetric] by (rule div_step) simp
  have c: "(y + 1 - 1601) div 400 = A400 + (if p400 then 1 else 0)"
    unfolding e400(1) A400_def m400 [symmetric] by (rule div_step) simp
  have d1: "p400 \<Longrightarrow> p100"
    unfolding p400_def p100_def using mod_mod_cancel [of 100 400 y] by simp
  have d2: "p100 \<Longrightarrow> p4"
    unfolding p100_def p4_def using mod_mod_cancel [of 4 100 y] by simp
  have leap: "InLeapYear y = (if p4 \<and> (\<not> p100 \<or> p400) then 1 else 0)"
    unfolding InLeapYear_def p4_def p100_def p400_def ..
  have l: "DayFromYear (y + 1) = 365 * (y + 1 - 1970) + (A4 + (if p4 then 1 else 0))
             - (A100 + (if p100 then 1 else 0)) + (A400 + (if p400 then 1 else 0))"
    unfolding DayFromYear_def a b c ..
  have r: "DayFromYear y = 365 * (y - 1970) + A4 - A100 + A400"
    unfolding DayFromYear_def A4_def A100_def A400_def ..
  show ?thesis
    unfolding l r leap using d1 d2 by (cases p4; cases p100; cases p400) simp_all
qed

lemma DayFromYear_less: "DayFromYear (y + 1) < DayFromYear (y + 2)"
proof -
  have "DayFromYear (y + 1 + 1) = DayFromYear (y + 1) + 365 + InLeapYear (y + 1)"
    by (rule DayFromYear_Suc)
  moreover have "0 \<le> InLeapYear (y + 1)" by (simp add: InLeapYear_def)
  moreover have "y + 1 + 1 = y + 2" by simp
  ultimately show ?thesis by simp
qed

text \<open>
  The year of a day number, searched upwards from a year that starts on or before the
  day: years have 365 or 366 days.
\<close>

function year_search :: "int \<Rightarrow> int \<Rightarrow> int" where
  "year_search y day = (if DayFromYear (y + 1) \<le> day then year_search (y + 1) day else y)"
  by pat_completeness auto
termination
proof (relation "measure (\<lambda>(y, day). nat (day + 1 - DayFromYear (y + 1)))")
  show "wf (measure (\<lambda>(y, day). nat (day + 1 - DayFromYear (y + 1))))" by simp
next
  fix y day :: int
  assume "DayFromYear (y + 1) \<le> day"
  moreover have "DayFromYear (y + 1) < DayFromYear (y + 1 + 1)"
    using DayFromYear_less [of y] by (simp add: add.commute)
  ultimately show "((y + 1, day), (y, day)) \<in> measure (\<lambda>(y, day). nat (day + 1 - DayFromYear (y + 1)))"
    by simp
qed

declare year_search.simps [simp del]

definition YearFromDay :: "int \<Rightarrow> int" where
  "YearFromDay day = year_search (1970 + (if 0 \<le> day then day div 366 else day div 365)) day"

definition MonthFromDay :: "int \<Rightarrow> int \<Rightarrow> int" where
  "MonthFromDay d leap =
     (if d < 31 then 0 else if d < 59 + leap then 1 else if d < 90 + leap then 2
      else if d < 120 + leap then 3 else if d < 151 + leap then 4
      else if d < 181 + leap then 5 else if d < 212 + leap then 6
      else if d < 243 + leap then 7 else if d < 273 + leap then 8
      else if d < 304 + leap then 9 else if d < 334 + leap then 10 else 11)"

definition month_start :: "int \<Rightarrow> int \<Rightarrow> int" where
  "month_start m leap =
     (if m = 0 then 0 else if m = 1 then 31 else if m = 2 then 59 + leap
      else if m = 3 then 90 + leap else if m = 4 then 120 + leap
      else if m = 5 then 151 + leap else if m = 6 then 181 + leap
      else if m = 7 then 212 + leap else if m = 8 then 243 + leap
      else if m = 9 then 273 + leap else if m = 10 then 304 + leap else 334 + leap)"

definition DateFromDay :: "int \<Rightarrow> int \<Rightarrow> int" where
  "DateFromDay d leap = d - month_start (MonthFromDay d leap) leap + 1"

definition DaysInMonth :: "int \<Rightarrow> int \<Rightarrow> int" where
  "DaysInMonth m leap =
     (if m = 1 then 28 + leap else if m = 3 \<or> m = 5 \<or> m = 8 \<or> m = 10 then 30 else 31)"

definition digit_char :: "nat \<Rightarrow> char" where
  "digit_char d = char_of (48 + d)"

definition digit_of :: "char \<Rightarrow> nat option" where
  "digit_of c = (let n = of_char c :: nat in if 48 \<le> n \<and> n \<le> 57 then Some (n - 48) else None)"

definition pad2 :: "nat \<Rightarrow> string" where
  "pad2 v = [digit_char (v div 10 mod 10), digit_char (v mod 10)]"

definition pad3 :: "nat \<Rightarrow> string" where
  "pad3 v = digit_char (v div 100 mod 10) # pad2 v"

definition pad4 :: "nat \<Rightarrow> string" where
  "pad4 v = pad2 (v div 100) @ pad2 v"

definition pad6 :: "nat \<Rightarrow> string" where
  "pad6 v = pad2 (v div 10000) @ pad4 v"

definition toISOString :: "int \<Rightarrow> js_error + string" where
  "toISOString t =
     (if t < - 8640000000000000 \<or> 8640000000000000 < t then Inl RangeError
      else
        let day = t div 86400000;
            y = YearFromDay day;
            leap = InLeapYear y;
            d = day - DayFromYear y
        in Inr ((if 0 \<le> y \<and> y \<le> 9999 then pad4 (nat y)
                 else (if y < 0 then ''-'' else ''+'') @ pad6 (nat \<bar>y\<bar>))
                @ ''-'' @ pad2 (nat (MonthFromDay d leap + 1))
                @ ''-'' @ pad2 (nat (DateFromDay d leap))
                @ ''T'' @ pad2 (nat (t div 3600000 mod 24))
                @ '':'' @ pad2 (nat (t div 60000 mod 60))
                @ '':'' @ pad2 (nat (t div 1000 mod 60))
                @ ''.'' @ pad3 (nat (t mod 1000)) @ ''Z''))"

definition toIXONISOString :: "int \<Rightarrow> js_error + string" where
  "toIXONISOString milliSeconds =
     (case toISOString milliSeconds of
        Inl e \<Rightarrow> Inl e
      | Inr s \<Rightarrow> Inr (takeWhile (\<lambda>c. c \<noteq> CHR ''.'') s @ ''Z''))"

definition digits2 :: "string \<Rightarrow> (nat \<times> string) option" where
  "digits2 s =
     (case s of
        a # b # rest \<Rightarrow>
          (case (digit_of a, digit_of b) of
             (Some x, Some y) \<Rightarrow> Some (10 * x + y, rest)
           | _ \<Rightarrow> None)
      | _ \<Rightarrow> None)"

definition digits4 :: "string \<Rightarrow> (nat \<times> string) option" where
  "digits4 s =
     (case digits2 s of
        None \<Rightarrow> None
      | Some (hi, s') \<Rightarrow>
          (case digits2 s' of None \<Rightarrow> None | Some (lo, rest) \<Rightarrow> Some (100 * hi + lo, rest)))"

definition expect :: "char \<Rightarrow> string \<Rightarrow> string option" where
  "expect c s = (case s of [] \<Rightarrow> None | x # rest \<Rightarrow> if x = c then Some rest else None)"

definition parse_fields :: "string \<Rightarrow> (nat \<times> nat \<times> nat \<times> nat \<times> nat \<times> nat) option" where
  "parse_fields s0 =
     do {
       (y, s1) \<leftarrow> digits4 s0;
       s2 \<leftarrow> expect CHR ''-'' s1;
       (mo, s3) \<leftarrow> digits2 s2;
       s4 \<leftarrow> expect CHR ''-'' s3;
       (d, s5) \<leftarrow> digits2 s4;
       s6 \<leftarrow> expect CHR ''T'' s5;
       (h, s7) \<leftarrow> digits2 s6;
       s8 \<leftarrow> expect CHR '':'' s7;
       (mi, s9) \<leftarrow> digits2 s8;
       s10 \<leftarrow> expect CHR '':'' s9;
       (se, s11) \<leftarrow> digits2 s10;
       s12 \<leftarrow> expect CHR ''Z'' s11;
       if s12 = [] then Some (y, mo, d, h, mi, se) else None
     }"

definition Date_parse :: "string \<Rightarrow> jsnum" where
  "Date_parse s =
     (case parse_fields s of
        None \<Rightarrow> NaN
      | Some (y, mo, d, h, mi, se) \<Rightarrow>
          if 1 \<le> mo \<and> mo \<le> 12 \<and> 1 \<le> d
             \<and> int d \<le> DaysInMonth (int mo - 1) (InLeapYear (int y))
             \<and> h \<le> 23 \<and> mi \<le> 59 \<and> se \<le> 59
          then Fin (of_int
                 ((DayFromYear (int y) + month_start (int mo - 1) (InLeapYear (int y)) + int d - 1)
                    * 86400000
                  + int h * 3600000 + int mi * 60000 + int se * 1000))
          else NaN)"


section \<open>services/data.service.ts: requests and responses\<close>

text \<open>The \<^verbatim>\<open>Metric\<close> type: a wire timestamp and the values by tag slug.\<close>

record metric =
  m_time :: string
  m_values :: "(string \<times> jsnum) list"

text \<open>
  What \<^verbatim>\<open>res.json()\<close> makes of a response body: a body that is not JSON, the JSON value
  \<^verbatim>\<open>null\<close>, or a value whose \<^verbatim>\<open>data\<close> and \<^verbatim>\<open>data.points\<close> may each be missing. A response
  is a rejected \<^verbatim>\<open>fetch\<close> or a status with a body.
\<close>

datatype body = NotJson | JsonNull | Json "metric list option option"

datatype response = Rejected | Response nat body

text \<open>The request body of the \<^verbatim>\<open>DataList\<close> endpoint, field by field as the code builds it.\<close>

record query =
  q_ref :: "string option"
  q_limit :: "nat option"
  q_offset :: "nat option"
  q_order :: "string option"
  q_postAggr :: "string option"
  q_step :: "int option"

record tag_query =
  t_slug :: "string option"
  t_preAggr :: string
  t_queries :: "query list"

record request =
  r_start :: string
  r_end :: string
  r_timeZone :: string
  r_source :: string
  r_tags :: "tag_query list"

text \<open>
  The backend answers a request; the number is the attempt (0 for the first), so that a
  retried request may be answered differently. \<^verbatim>\<open>this.context.timeRange\<close> is the window.
\<close>

type_synonym backend = "request \<Rightarrow> nat \<Rightarrow> response"

record component_context =
  timeRange_from :: int
  timeRange_to :: int

text \<open>Sequencing of steps that may throw: the first error ends the function.\<close>

definition await :: "'e + 'a \<Rightarrow> ('a \<Rightarrow> 'e + 'b) \<Rightarrow> 'e + 'b" where
  "await r f = (case r of Inl e \<Rightarrow> Inl e | Inr x \<Rightarrow> f x)"

fun all_results :: "('e + 'a) list \<Rightarrow> 'e + 'a list" where
  "all_results [] = Inr []"
| "all_results (r # rs) =
     (case r of
        Inl e \<Rightarrow> Inl e
      | Inr x \<Rightarrow> (case all_results rs of Inl e \<Rightarrow> Inl e | Inr xs \<Rightarrow> Inr (x # xs)))"

text \<open>
  \<^verbatim>\<open>fetch(...).then((res) => res.json())\<close> followed by \<^verbatim>\<open>response.data.points\<close>, read
  without optional chaining: a missing \<^verbatim>\<open>data\<close> or \<^verbatim>\<open>points\<close> throws where the points are
  spread or indexed.
\<close>

definition data_points :: "response \<Rightarrow> js_error + metric list" where
  "data_points r =
     (case r of
        Rejected \<Rightarrow> Inl NetworkError
      | Response status NotJson \<Rightarrow> Inl SyntaxError
      | Response status JsonNull \<Rightarrow> Inl TypeError
      | Response status (Json None) \<Rightarrow> Inl TypeError
      | Response status (Json (Some None)) \<Rightarrow> Inl TypeError
      | Response status (Json (Some (Some ps))) \<Rightarrow> Inr ps)"

text \<open>\<^verbatim>\<open>_getLastPointOfPreviousPeriod\<close>: the one point before the window, under the
  time of the window's start as \<^verbatim>\<open>_toIXONISOString\<close> writes it.\<close>

definition backfill_request :: "string \<Rightarrow> string \<Rightarrow> string \<Rightarrow> string list \<Rightarrow> request" where
  "backfill_request start end' sourceId tagSlugs =
     \<lparr>r_start = start, r_end = end', r_timeZone = ''UTC'', r_source = sourceId,
      r_tags = map (\<lambda>slug. \<lparr>t_slug = Some slug, t_preAggr = ''raw'',
                 t_queries = [\<lparr>q_ref = Some slug, q_limit = Some 1,
                               q_offset = None, q_order = None,
                               q_postAggr = Some ''raw'', q_step = None\<rparr>]\<rparr>)
                 tagSlugs\<rparr>"

definition getLastPointOfPreviousPeriod ::
  "component_context \<Rightarrow> backend \<Rightarrow> string \<Rightarrow> string list \<Rightarrow> js_error + metric option" where
  "getLastPointOfPreviousPeriod ctx fetch sourceId tagSlugs =
     await (toIXONISOString 0) (\<lambda>start.
     await (toIXONISOString (timeRange_from ctx)) (\<lambda>end'.
     await (data_points (fetch (backfill_request start end' sourceId tagSlugs) 0))
       (\<lambda>points.
          case points of
            [] \<Rightarrow> Inr None
          | lastPointOfPreviousPeriod # _ \<Rightarrow>
              Inr (Some \<lparr>m_time = end', m_values = m_values lastPointOfPreviousPeriod\<rparr>))))"

text \<open>
  \<^verbatim>\<open>_getAllRawMetrics\<close>, the sequential strategy. The recursion goes on while a page is
  full, for as long as the backend serves full pages: \<^const>\<open>None\<close> is a run that never ends.
\<close>

definition sequential_request ::
  "string \<Rightarrow> string \<Rightarrow> string \<Rightarrow> string list \<Rightarrow> nat \<Rightarrow> request" where
  "sequential_request start end' sourceId tagSlugs offset =
     \<lparr>r_start = start, r_end = end', r_timeZone = ''UTC'', r_source = sourceId,
      r_tags = map (\<lambda>slug. \<lparr>t_slug = Some slug, t_preAggr = ''raw'',
                 t_queries = [\<lparr>q_ref = Some slug, q_limit = Some 5000,
                               q_offset = Some offset, q_order = None,
                               q_postAggr = None, q_step = None\<rparr>]\<rparr>)
                 tagSlugs\<rparr>"

partial_function (option) getAllRawMetricsSequential ::
  "component_context \<Rightarrow> backend \<Rightarrow> string \<Rightarrow> string list \<Rightarrow> bool \<Rightarrow> nat \<Rightarrow> metric list
     \<Rightarrow> (js_error + metric list) option" where
  "getAllRawMetricsSequential ctx fetch sourceId tagSlugs hasNext offset metrics =
     (if \<not> hasNext then
        Some (await (getLastPointOfPreviousPeriod ctx fetch sourceId tagSlugs)
               (\<lambda>lastPointOfPreviousPeriod.
                  case lastPointOfPreviousPeriod of
                    Some p \<Rightarrow> Inr (metrics @ [p])
                  | None \<Rightarrow> Inr metrics))
      else
        case toIXONISOString (timeRange_from ctx) of
          Inl e \<Rightarrow> Some (Inl e)
        | Inr start \<Rightarrow>
            (case toIXONISOString (timeRange_to ctx) of
               Inl e \<Rightarrow> Some (Inl e)
             | Inr end' \<Rightarrow>
                 (case data_points
                         (fetch (sequential_request start end' sourceId tagSlugs offset) 0) of
                    Inl e \<Rightarrow> Some (Inl e)
                  | Inr points \<Rightarrow>
                      getAllRawMetricsSequential ctx fetch sourceId tagSlugs
                        (length points = 5000) (offset + 5000) (metrics @ points))))"

text \<open>\<^verbatim>\<open>_getTotalCount\<close>: one bucket over the whole window, counted. Every missing
  part of the answer, and a count of zero or \<^verbatim>\<open>NaN\<close>, ends in \<^verbatim>\<open>|| 0\<close>.\<close>

definition slug_key :: "string option \<Rightarrow> string" where
  "slug_key slug = (case slug of None \<Rightarrow> ''undefined'' | Some s \<Rightarrow> s)"

definition count_request ::
  "string \<Rightarrow> string \<Rightarrow> string \<Rightarrow> string option \<Rightarrow> int \<Rightarrow> request" where
  "count_request start end' sourceId tagSlug timeRangeDurationSeconds =
     \<lparr>r_start = start, r_end = end', r_timeZone = ''UTC'', r_source = sourceId,
      r_tags = [\<lparr>t_slug = tagSlug, t_preAggr = ''raw'',
                 t_queries = [\<lparr>q_ref = tagSlug, q_limit = None, q_offset = None,
                               q_order = None, q_postAggr = Some ''count'',
                               q_step = Some timeRangeDurationSeconds\<rparr>]\<rparr>]\<rparr>"

definition read_count :: "string option \<Rightarrow> response \<Rightarrow> js_error + jsnum" where
  "read_count tagSlug r =
     (case r of
        Rejected \<Rightarrow> Inl NetworkError
      | Response status NotJson \<Rightarrow> Inl SyntaxError
      | Response status JsonNull \<Rightarrow> Inl TypeError
      | Response status (Json None) \<Rightarrow> Inr (Fin 0)
      | Response status (Json (Some None)) \<Rightarrow> Inr (Fin 0)
      | Response status (Json (Some (Some []))) \<Rightarrow> Inr (Fin 0)
      | Response status (Json (Some (Some (p # _)))) \<Rightarrow>
          (case map_of (m_values p) (slug_key tagSlug) of
             None \<Rightarrow> Inr (Fin 0)
           | Some c \<Rightarrow> Inr (if c = NaN \<or> c = Fin 0 then Fin 0 else c)))"

text \<open>The step is \<^verbatim>\<open>Math.ceil((to - from) / 1000)\<close>.\<close>

definition getTotalCount ::
  "component_context \<Rightarrow> backend \<Rightarrow> string \<Rightarrow> string option \<Rightarrow> js_error + jsnum" where
  "getTotalCount ctx fetch sourceId tagSlug =
     await (toIXONISOString (timeRange_from ctx)) (\<lambda>start.
     await (toIXONISOString (timeRange_to ctx)) (\<lambda>end'.
       read_count tagSlug
         (fetch (count_request start end' sourceId tagSlug
                   (- ((timeRange_from ctx - timeRange_to ctx) div 1000))) 0)))"

text \<open>
  \<^verbatim>\<open>_fetchRawDataPage\<close>. The result is what the call resolves to or throws, the backoff
  waits in milliseconds in the order they were slept, and the number of requests sent.
  \<^verbatim>\<open>attempt\<close> counts the requests sent before the call; it starts at 0.
\<close>

definition page_points :: "body \<Rightarrow> js_error + metric list" where
  "page_points b =
     (case b of
        NotJson \<Rightarrow> Inl SyntaxError
      | JsonNull \<Rightarrow> Inl TypeError
      | Json None \<Rightarrow> Inr []
      | Json (Some None) \<Rightarrow> Inr []
      | Json (Some (Some ps)) \<Rightarrow> Inr ps)"

definition page_request ::
  "string \<Rightarrow> string \<Rightarrow> string \<Rightarrow> string option \<Rightarrow> nat \<Rightarrow> nat \<Rightarrow> request" where
  "page_request start end' sourceId tagSlug offset limit =
     \<lparr>r_start = start, r_end = end', r_timeZone = ''UTC'', r_source = sourceId,
      r_tags = [\<lparr>t_slug = tagSlug, t_preAggr = ''raw'',
                 t_queries = [\<lparr>q_ref = tagSlug, q_limit = Some limit, q_offset = Some offset,
                               q_order = Some ''asc'', q_postAggr = None, q_step = None\<rparr>]\<rparr>]\<rparr>"

function fetchRawDataPage ::
  "component_context \<Rightarrow> backend \<Rightarrow> string \<Rightarrow> string option \<Rightarrow> nat \<Rightarrow> nat \<Rightarrow> int \<Rightarrow> nat
     \<Rightarrow> (js_error + metric list) \<times> int list \<times> nat" where
  "fetchRawDataPage ctx fetch sourceId tagSlug offset limit retries attempt =
     (case toIXONISOString (timeRange_from ctx) of
        Inl e \<Rightarrow> (Inl e, [], attempt)
      | Inr start \<Rightarrow>
          (case toIXONISOString (timeRange_to ctx) of
             Inl e \<Rightarrow> (Inl e, [], attempt)
           | Inr end' \<Rightarrow>
               (case fetch (page_request start end' sourceId tagSlug offset limit) attempt of
                  Rejected \<Rightarrow> (Inl NetworkError, [], Suc attempt)
                | Response status b \<Rightarrow>
                    if status = 429 \<and> 0 < retries then
                      (case fetchRawDataPage ctx fetch sourceId tagSlug offset limit
                              (retries - 1) (Suc attempt) of
                         (r, waits, sent) \<Rightarrow> (r, (4 - retries) * 1000 # waits, sent))
                    else (page_points b, [], Suc attempt))))"
  by pat_completeness auto
termination
  by (relation "measure (\<lambda>(ctx, fetch, sourceId, tagSlug, offset, limit, retries, attempt).
                  nat retries)") auto

declare fetchRawDataPage.simps [simp del]

text \<open>
  \<^verbatim>\<open>_getAllRawMetricsParallel\<close>, the count-prefetch strategy. \<^verbatim>\<open>Array.from\<close> with a
  length that is no array length throws; progress notifications are not modelled.

  The pages that \<^verbatim>\<open>_fetchWithConcurrencyLimit\<close> hands back are modelled by
  \<^const>\<open>all_results\<close>: when every page request succeeds, the pages in the order of their
  offsets. When one fails the function throws, either from the scheduler or where the
  empty slot of the failed page is spread, and the error of the first failed page stands
  for the error thrown. The scheduler itself is the transition system of a later section.
\<close>

text \<open>\<^verbatim>\<open>tagSlugs[0]\<close>, which is \<^verbatim>\<open>undefined\<close> for an empty array.\<close>

definition first_slug :: "string list \<Rightarrow> string option" where
  "first_slug tagSlugs = (case tagSlugs of [] \<Rightarrow> None | s # _ \<Rightarrow> Some s)"

definition by_time :: "metric \<Rightarrow> metric \<Rightarrow> jsnum" where
  "by_time a b = jsub (Date_parse (m_time a)) (Date_parse (m_time b))"

definition getAllRawMetricsParallel ::
  "component_context \<Rightarrow> backend \<Rightarrow> string \<Rightarrow> string list \<Rightarrow> js_error + metric list" where
  "getAllRawMetricsParallel ctx fetch sourceId tagSlugs =
     (let tagSlug = first_slug tagSlugs in
      await (getTotalCount ctx fetch sourceId tagSlug) (\<lambda>totalCount.
        if totalCount = Fin 0 then
          await (getLastPointOfPreviousPeriod ctx fetch sourceId tagSlugs) (\<lambda>lastPoint.
            Inr (case lastPoint of Some p \<Rightarrow> [p] | None \<Rightarrow> []))
        else if jle totalCount (Fin 5000) then
          await (fst (fetchRawDataPage ctx fetch sourceId tagSlug 0 5000 3 0)) (\<lambda>data.
          await (getLastPointOfPreviousPeriod ctx fetch sourceId tagSlugs) (\<lambda>lastPoint.
            Inr (case lastPoint of Some p \<Rightarrow> data @ [p] | None \<Rightarrow> data)))
        else
          (case totalCount of
             Fin c \<Rightarrow>
               let pagesNeeded = nat \<lceil>c / 5000\<rceil> in
               if 4294967295 < pagesNeeded then Inl RangeError
               else
                 await (all_results
                          (map (\<lambda>i. fst (fetchRawDataPage ctx fetch sourceId tagSlug
                                            (i * 5000) 5000 3 0))
                             [0..<pagesNeeded])) (\<lambda>results.
                 await (getLastPointOfPreviousPeriod ctx fetch sourceId tagSlugs) (\<lambda>lastPoint.
                   Inr (Array_sort by_time
                          (case lastPoint of
                             Some p \<Rightarrow> concat results @ [p]
                           | None \<Rightarrow> concat results))))
           | _ \<Rightarrow> Inl RangeError)))"

text \<open>
  \<^verbatim>\<open>(x).toFixed(decimals)\<close> read back by \<^verbatim>\<open>parseFloat\<close>: a digit count outside 0 to 100
  throws. For a finite number below \<^verbatim>\<open>1e21\<close> the printed decimal is the multiple of
  \<^verbatim>\<open>10^-decimals\<close> nearest to the number, the one of the greater magnitude of two equally
  near, and \<^verbatim>\<open>parseFloat\<close> returns the number value of that decimal. Every other number
  is printed and read back unchanged.
\<close>

definition toFixed_parseFloat :: "int \<Rightarrow> jsnum \<Rightarrow> js_error + jsnum" where
  "toFixed_parseFloat decimals x =
     (if decimals < 0 \<or> 100 < decimals then Inl RangeError
      else case x of
             Fin a \<Rightarrow>
               if 10 ^ 21 \<le> \<bar>a\<bar> then Inr (Fin a)
               else Inr (to_double (sgn a * of_int \<lfloor>\<bar>a\<bar> * 10 ^ nat decimals + 1 / 2\<rfloor>
                                      / 10 ^ nat decimals))
           | _ \<Rightarrow> Inr x)"

text \<open>
  \<^verbatim>\<open>getAllRawMetrics\<close>. The lookup of the agent, the source and the tag is the host's;
  \<^verbatim>\<open>resolved\<close> is its outcome: the source id and the tag slug, or \<^const>\<open>None\<close> where the code
  returns \<^verbatim>\<open>null\<close>. The values of a point are numbers, as the \<^verbatim>\<open>Metric\<close> type declares;
  \<^verbatim>\<open>isNaN\<close> and the product convert their argument to a number first, so a value of
  another type on the wire behaves here as the number it converts to. A point whose
  value is missing or \<^verbatim>\<open>NaN\<close> fails the \<^verbatim>\<open>!isNaN\<close> filter.
\<close>

definition getAllRawMetrics ::
  "component_context \<Rightarrow> backend \<Rightarrow> (string \<times> string) option \<Rightarrow> jsnum \<Rightarrow> int
     \<Rightarrow> js_error + sample_point list option" where
  "getAllRawMetrics ctx fetch resolved factor decimals =
     (case resolved of
        None \<Rightarrow> Inr None
      | Some (sourceId, tagSlug) \<Rightarrow>
          await (getAllRawMetricsParallel ctx fetch sourceId [tagSlug]) (\<lambda>allMetricsOfTagSlug.
          await (all_results
                   (map (\<lambda>d. await (toFixed_parseFloat decimals (jmul (the (snd d)) factor))
                                (\<lambda>r. Inr \<lparr>p_time = fst d, p_value = r\<rparr>))
                      (filter (\<lambda>d. case snd d of None \<Rightarrow> False | Some v \<Rightarrow> \<not> isNaN v)
                         (map (\<lambda>x. (Date_parse (m_time x), map_of (m_values x) tagSlug))
                            allMetricsOfTagSlug))))
            (\<lambda>points. Inr (Some points))))"

text \<open>The string \<^verbatim>\<open>_toIXONISOString\<close> returns for a time of the years 0 to 9999.\<close>

definition iso_seconds :: "int \<Rightarrow> string" where
  "iso_seconds t =
     (let day = t div 86400000;
          y = YearFromDay day;
          leap = InLeapYear y;
          d = day - DayFromYear y
      in pad4 (nat y)
         @ ''-'' @ pad2 (nat (MonthFromDay d leap + 1))
         @ ''-'' @ pad2 (nat (DateFromDay d leap))
         @ ''T'' @ pad2 (nat (t div 3600000 mod 24))
         @ '':'' @ pad2 (nat (t div 60000 mod 60))
         @ '':'' @ pad2 (nat (t div 1000 mod 60)) @ ''Z'')"

section \<open>\<^verbatim>\<open>_fetchWithConcurrencyLimit\<close> as a transition system\<close>

text \<open>
  The scheduler is one flow of control, the \<^verbatim>\<open>for\<close> loop, and one wrapper per started
  task that stores the task's result and removes the task from the \<^verbatim>\<open>executing\<close> map when
  the task settles. The loop is either running, or suspended in
  \<^verbatim>\<open>await Promise.race(...)\<close> or \<^verbatim>\<open>await Promise.all(...)\<close>, or the awaited promise has
  settled and the loop has not resumed yet, or the function has returned or thrown.
\<close>

datatype phase =
  Running | AwaitRace | RaceSettled "js_error option" | AwaitAll | AllRejected js_error
  | Returned | Thrown js_error

text \<open>
  The state: the loop variable \<^verbatim>\<open>i\<close>, the indices of the tasks called so far in the order
  of the calls, the keys of \<^verbatim>\<open>executing\<close>, the filled slots of \<^verbatim>\<open>results\<close>, and the phase.
\<close>

record 'a scheduler =
  next_index :: nat
  started :: "nat list"
  executing :: "nat set"
  results :: "nat \<rightharpoonup> 'a"
  pc :: phase

definition initial :: "'a scheduler" where
  "initial = \<lparr>next_index = 0, started = [], executing = {}, results = Map.empty, pc = Running\<rparr>"

text \<open>
  A task is what its promise settles to: a result or an error; tasks never throw before
  their first \<^verbatim>\<open>await\<close>. The steps: the loop starts the next task and awaits the race
  when the map has reached \<^verbatim>\<open>maxConcurrent\<close> entries; the loop ends and awaits all
  entries; a task of the map settles while the loop is suspended, and the first one to
  settle decides an awaited race, the first rejection an awaited \<^verbatim>\<open>Promise.all\<close>; the
  loop resumes or throws; \<^verbatim>\<open>Promise.all\<close> is fulfilled when the map is empty.
\<close>

inductive sched_step :: "(js_error + 'a) list \<Rightarrow> nat \<Rightarrow> 'a scheduler \<Rightarrow> 'a scheduler \<Rightarrow> bool"
  for tasks :: "(js_error + 'a) list" and maxConcurrent :: nat where
  start:
    "pc s = Running \<Longrightarrow> next_index s < length tasks \<Longrightarrow>
     sched_step tasks maxConcurrent s
       (s\<lparr>next_index := Suc (next_index s),
          started := started s @ [next_index s],
          executing := insert (next_index s) (executing s),
          pc := (if maxConcurrent \<le> card (insert (next_index s) (executing s))
                 then AwaitRace else Running)\<rparr>)"
| submitted:
    "pc s = Running \<Longrightarrow> next_index s = length tasks \<Longrightarrow>
     sched_step tasks maxConcurrent s (s\<lparr>pc := AwaitAll\<rparr>)"
| settle:
    "i \<in> executing s \<Longrightarrow> pc s \<noteq> Running \<Longrightarrow>
     sched_step tasks maxConcurrent s
       (s\<lparr>results := (case tasks ! i of Inr v \<Rightarrow> (results s)(i \<mapsto> v) | Inl e \<Rightarrow> results s),
          executing := executing s - {i},
          pc := (if pc s = AwaitRace
                 then RaceSettled (case tasks ! i of Inr v \<Rightarrow> None | Inl e \<Rightarrow> Some e)
                 else if pc s = AwaitAll
                 then (case tasks ! i of Inr v \<Rightarrow> AwaitAll | Inl e \<Rightarrow> AllRejected e)
                 else pc s)\<rparr>)"
| resume:
    "pc s = RaceSettled None \<Longrightarrow> sched_step tasks maxConcurrent s (s\<lparr>pc := Running\<rparr>)"
| race_rejected:
    "pc s = RaceSettled (Some e) \<Longrightarrow> sched_step tasks maxConcurrent s (s\<lparr>pc := Thrown e\<rparr>)"
| all_fulfilled:
    "pc s = AwaitAll \<Longrightarrow> executing s = {} \<Longrightarrow>
     sched_step tasks maxConcurrent s (s\<lparr>pc := Returned\<rparr>)"
| all_rejected:
    "pc s = AllRejected e \<Longrightarrow> sched_step tasks maxConcurrent s (s\<lparr>pc := Thrown e\<rparr>)"

text \<open>The states of the runs of the scheduler.\<close>

inductive reachable :: "(js_error + 'a) list \<Rightarrow> nat \<Rightarrow> 'a scheduler \<Rightarrow> bool"
  for tasks :: "(js_error + 'a) list" and maxConcurrent :: nat where
  init: "reachable tasks maxConcurrent initial"
| step: "reachable tasks maxConcurrent s \<Longrightarrow> sched_step tasks maxConcurrent s s' \<Longrightarrow>
         reachable tasks maxConcurrent s'"

text \<open>The invariant of the runs, for \<^verbatim>\<open>maxConcurrent\<close> of at least 1.\<close>

definition sched_inv :: "(js_error + 'a) list \<Rightarrow> nat \<Rightarrow> 'a scheduler \<Rightarrow> bool" where
  "sched_inv tasks maxConcurrent s \<longleftrightarrow>
     next_index s \<le> length tasks
     \<and> started s = [0..<next_index s]
     \<and> executing s \<subseteq> {0..<next_index s}
     \<and> card (executing s) \<le> maxConcurrent
     \<and> (pc s \<noteq> AwaitRace \<longrightarrow> card (executing s) < maxConcurrent)
     \<and> (\<forall>i v. results s i = Some v \<longrightarrow> tasks ! i = Inr v)
     \<and> (\<forall>i<next_index s. i \<notin> executing s \<longrightarrow> (\<forall>v. tasks ! i = Inr v \<longrightarrow> results s i = Some v))
     \<and> (pc s = AwaitAll \<or> pc s = Returned \<longrightarrow> next_index s = length tasks)
     \<and> (pc s = Returned \<longrightarrow> executing s = {})"

text \<open>
  A bound on the steps a run has left: three for every task not yet started, one for
  every task in flight, and what the loop itself still has to do in its phase.
\<close>

fun weight :: "phase \<Rightarrow> nat" where
  "weight Running = 2"
| "weight AwaitRace = 3"
| "weight (RaceSettled r) = 3"
| "weight AwaitAll = 1"
| "weight (AllRejected e) = 1"
| "weight Returned = 0"
| "weight (Thrown e) = 0"

definition remaining :: "(js_error + 'a) list \<Rightarrow> 'a scheduler \<Rightarrow> nat" where
  "remaining tasks s = 3 * (length tasks - next_index s) + card (executing s) + weight (pc s)"

section \<open>Backends\<close>

text \<open>
  A backend that tells the three queries apart by their \<^verbatim>\<open>postAggr\<close>: it answers the
  count query with \<^verbatim>\<open>cnt\<close> under the tag's slug, the query for the point before the
  window with \<^verbatim>\<open>before\<close>, and a page query with \<^verbatim>\<open>pages offset limit\<close>.
\<close>

definition scripted_backend ::
  "jsnum \<Rightarrow> (nat \<Rightarrow> nat \<Rightarrow> metric list) \<Rightarrow> metric option \<Rightarrow> backend" where
  "scripted_backend cnt pages before req attempt =
     (case r_tags req of
        [] \<Rightarrow> Response 400 NotJson
      | tg # _ \<Rightarrow>
          (case t_queries tg of
             [] \<Rightarrow> Response 400 NotJson
           | q # _ \<Rightarrow>
               if q_postAggr q = Some ''count'' then
                 Response 200 (Json (Some (Some
                   [\<lparr>m_time = r_start req, m_values = [(slug_key (t_slug tg), cnt)]\<rparr>])))
               else if q_postAggr q = Some ''raw'' then
                 Response 200 (Json (Some (Some (case before of None \<Rightarrow> [] | Some p \<Rightarrow> [p]))))
               else
                 Response 200 (Json (Some (Some
                   (pages (case q_offset q of None \<Rightarrow> 0 | Some n \<Rightarrow> n)
                          (case q_limit q of None \<Rightarrow> 0 | Some n \<Rightarrow> n)))))))"

text \<open>
  A backend that gives every request the same answer, and a page table that serves one
  list at offset 0 and another at every later offset.
\<close>

definition always :: "response \<Rightarrow> backend" where
  "always r req attempt = r"

definition first_then :: "metric list \<Rightarrow> metric list \<Rightarrow> nat \<Rightarrow> nat \<Rightarrow> metric list" where
  "first_then first rest offset limit = (if offset = 0 then first else rest)"

text \<open>
  The synthetic backend of the specification: a fixed, finite point set served under
  offset and limit pagination, with its true count.
\<close>

definition synthetic_backend :: "metric list \<Rightarrow> metric option \<Rightarrow> backend" where
  "synthetic_backend pts before =
     scripted_backend (Fin (real (length pts))) (\<lambda>offset limit. take limit (drop offset pts)) before"

text \<open>The mean and the population variance, as the specification words them.\<close>

definition arithmetic_mean :: "real list \<Rightarrow> real" where
  "arithmetic_mean vs = sum_list vs / real (length vs)"

definition population_variance :: "real list \<Rightarrow> real" where
  "population_variance vs =
     (\<Sum>v\<leftarrow>vs. (v - arithmetic_mean vs) * (v - arithmetic_mean vs)) / real (length vs)"

definition values_of :: "sample_point list \<Rightarrow> real list" where
  "values_of data = map (\<lambda>d. case p_value d of Fin v \<Rightarrow> v | _ \<Rightarrow> 0) data"

definition all_finite :: "sample_point list \<Rightarrow> bool" where
  "all_finite data = list_all (\<lambda>d. isFinite (p_value d)) data"

text \<open>The answers to the count query that hold no count for the tag: no \<^verbatim>\<open>data\<close>, no
  \<^verbatim>\<open>points\<close>, no first point, or no value under the tag's slug.\<close>

definition count_missing :: "string option \<Rightarrow> metric list option option \<Rightarrow> bool" where
  "count_missing tagSlug d =
     (case d of
        None \<Rightarrow> True
      | Some None \<Rightarrow> True
      | Some (Some []) \<Rightarrow> True
      | Some (Some (p # _)) \<Rightarrow> map_of (m_values p) (slug_key tagSlug) = None)"

text \<open>The wire points \<^verbatim>\<open>getAllRawMetrics\<close> keeps: those with a value for the tag that is
  not \<^verbatim>\<open>NaN\<close>.\<close>

definition kept :: "string \<Rightarrow> metric \<Rightarrow> bool" where
  "kept tagSlug x = (case map_of (m_values x) tagSlug of None \<Rightarrow> False | Some v \<Rightarrow> \<not> isNaN v)"

text \<open>The time \<^verbatim>\<open>Date.parse\<close> reads from a point, and whether it reads one.\<close>

definition parsed_time :: "metric \<Rightarrow> real" where
  "parsed_time m = (case Date_parse (m_time m) of Fin t \<Rightarrow> t | _ \<Rightarrow> 0)"

definition parses :: "metric \<Rightarrow> bool" where
  "parses m = isFinite (Date_parse (m_time m))"

text \<open>The point before the window as the strategies append it: under the time \<^verbatim>\<open>start\<close>.\<close>

definition backfill :: "string \<Rightarrow> metric option \<Rightarrow> metric list" where
  "backfill start before =
     (case before of None \<Rightarrow> [] | Some p \<Rightarrow> [\<lparr>m_time = start, m_values = m_values p\<rparr>])"

text \<open>
  A page query is a request without \<^verbatim>\<open>postAggr\<close>; the served points of a backend are
  the points of its answers to page queries.
\<close>

definition page_query :: "request \<Rightarrow> bool" where
  "page_query req = (\<forall>t\<in>set (r_tags req). \<forall>q\<in>set (t_queries t). q_postAggr q = None)"

definition served_points :: "backend \<Rightarrow> metric set" where
  "served_points fetch =
     {x. \<exists>req attempt status ps.
           page_query req \<and> fetch req attempt = Response status (Json (Some (Some ps)))
           \<and> x \<in> set ps}"

definition option_list :: "'a option \<Rightarrow> 'a list" where
  "option_list x = (case x of None \<Rightarrow> [] | Some y \<Rightarrow> [y])"

section \<open>The number value of a real\<close>

lemma to_double_0 [simp]: "to_double 0 = Fin 0"
  by (simp add: to_double_def)

lemma to_double_not_NaN [simp]: "to_double x \<noteq> NaN"
  by (simp add: to_double_def Let_def)

lemma round_half_even_near: "\<bar>of_int (round_half_even y) - y\<bar> \<le> 1 / 2"
proof -
  have "of_int \<lfloor>y\<rfloor> \<le> y" "y < of_int \<lfloor>y\<rfloor> + 1" by linarith+
  then show ?thesis
    by (auto simp: round_half_even_def Let_def)
qed

lemma round_half_even_int [simp]: "round_half_even (of_int n) = n"
  by (simp add: round_half_even_def)

lemma floor_log2_bounds:
  assumes "0 < a"
  shows "2 powr of_int \<lfloor>log 2 a\<rfloor> \<le> a" and "a < 2 powr of_int (\<lfloor>log 2 a\<rfloor> + 1)"
proof -
  have a: "2 powr log 2 a = a" using assms by simp
  have "of_int \<lfloor>log 2 a\<rfloor> \<le> log 2 a" by simp
  then have "2 powr of_int \<lfloor>log 2 a\<rfloor> \<le> 2 powr log 2 a" by (simp only: powr_le_cancel_iff) 
  then show "2 powr of_int \<lfloor>log 2 a\<rfloor> \<le> a" using a by simp
  have "log 2 a < of_int (\<lfloor>log 2 a\<rfloor> + 1)" by linarith
  then have "2 powr log 2 a < 2 powr of_int (\<lfloor>log 2 a\<rfloor> + 1)" by (simp only: powr_less_cancel_iff)
  then show "a < 2 powr of_int (\<lfloor>log 2 a\<rfloor> + 1)" using a by simp
qed


lemma to_double_finite_below:
  assumes "\<bar>x\<bar> < 2 powr of_int k" and "k \<le> 1023"
  shows "\<exists>r. to_double x = Fin r"
proof (cases "x = 0")
  case True
  then show ?thesis by simp
next
  case False
  define a where "a = \<bar>x\<bar>"
  define e where "e = max \<lfloor>log 2 a\<rfloor> (- 1022)"
  define ulp :: real where "ulp = 2 powr of_int (e - 52)"
  define n where "n = round_half_even (x / ulp)"
  have a: "0 < a" using False by (simp add: a_def)
  have ulp: "0 < ulp" by (simp add: ulp_def)
  have "2 powr of_int \<lfloor>log 2 a\<rfloor> \<le> a" using a by (rule floor_log2_bounds)
  also have "a < 2 powr of_int k" using assms(1) by (simp add: a_def)
  finally have "of_int \<lfloor>log 2 a\<rfloor> < (of_int k :: real)" by (simp only: powr_less_cancel_iff)
  then have "\<lfloor>log 2 a\<rfloor> < k" by (simp only: of_int_less_iff)
  then have e: "e \<le> 1022" using assms(2) unfolding e_def by linarith
  have "a < 2 powr of_int (\<lfloor>log 2 a\<rfloor> + 1)" using a by (rule floor_log2_bounds)
  also have "\<dots> \<le> 2 powr of_int (e + 1)"
    by (rule powr_mono) (simp_all add: e_def)
  finally have ae: "a < 2 powr of_int (e + 1)" .
  define c :: real where "c = 2 powr 53"
  have c: "c = of_int (2 ^ 53)" by (simp add: c_def)
  have "(2::real) powr of_int (e + 1) = 2 powr (53 + of_int (e - 52))"
    by (rule arg_cong [where f = "\<lambda>t. 2 powr t"]) simp
  also have "\<dots> = c * ulp" unfolding c_def ulp_def by (rule powr_add)
  finally have split: "(2::real) powr of_int (e + 1) = c * ulp" .
  have "\<bar>x / ulp\<bar> = a / ulp" using ulp by (simp add: a_def)
  also have "\<dots> < c" using ae ulp unfolding split by (simp add: field_simps)
  finally have m: "\<bar>x / ulp\<bar> < c" .
  have "\<bar>of_int n - x / ulp\<bar> \<le> 1 / 2" unfolding n_def by (rule round_half_even_near)
  then have "\<bar>of_int n :: real\<bar> < c + 1 / 2" using m by linarith
  then have "real_of_int \<bar>n\<bar> < of_int (2 ^ 53) + 1 / 2" unfolding c by simp
  then have "real_of_int \<bar>n\<bar> < of_int (2 ^ 53 + 1)" by linarith
  then have "\<bar>n\<bar> < 2 ^ 53 + 1" by (simp only: of_int_less_iff)
  then have "\<bar>n\<bar> \<le> 2 ^ 53" by simp
  then have "real_of_int \<bar>n\<bar> \<le> of_int (2 ^ 53)" by (simp only: of_int_le_iff)
  then have n: "\<bar>of_int n :: real\<bar> \<le> c" unfolding c by simp
  have "\<bar>of_int n * ulp\<bar> = \<bar>of_int n :: real\<bar> * ulp" using ulp by (simp add: abs_mult)
  also have "\<dots> \<le> c * ulp" using n ulp by (simp add: mult_right_mono)
  also have "\<dots> = 2 powr of_int (e + 1)" by (rule split [symmetric])
  also have "\<dots> \<le> 2 powr of_int 1023"
    by (rule powr_mono) (use e in simp_all)
  also have "\<dots> < 2 ^ 1024" by simp
  finally have "\<not> 2 ^ 1024 \<le> \<bar>of_int n * ulp\<bar>" by simp
  then have "to_double x = Fin (of_int n * ulp)"
    using False
    unfolding to_double_def Let_def n_def ulp_def e_def a_def by simp
  then show ?thesis by blast
qed


lemma to_double_overflow:
  assumes "2 powr of_int 1024 \<le> x"
  shows "to_double x = PInf"
proof -
  define e where "e = \<lfloor>log 2 x\<rfloor>"
  define ulp :: real where "ulp = 2 powr of_int (e - 52)"
  define n where "n = round_half_even (x / ulp)"
  define c :: real where "c = 2 powr 52"
  have c: "c = of_int (2 ^ 52)" by (simp add: c_def)
  have "(0::real) < 2 powr of_int 1024" by simp
  then have x: "0 < x" using assms by linarith
  have ulp: "0 < ulp" by (simp add: ulp_def)
  have "2 powr of_int 1024 \<le> x" by (rule assms)
  also have "x < 2 powr of_int (e + 1)" unfolding e_def using x by (rule floor_log2_bounds)
  finally have "(of_int 1024 :: real) < of_int (e + 1)" by (simp only: powr_less_cancel_iff)
  then have "1024 < e + 1" by (simp only: of_int_less_iff)
  then have e: "1024 \<le> e" by simp
  then have mx: "max e (- 1022) = e" by simp
  have "(2::real) powr of_int e = 2 powr (52 + of_int (e - 52))"
    by (rule arg_cong [where f = "\<lambda>t. 2 powr t"]) simp
  also have "\<dots> = c * ulp" unfolding c_def ulp_def by (rule powr_add)
  finally have split: "(2::real) powr of_int e = c * ulp" .
  have le: "c * ulp \<le> x" unfolding split [symmetric] e_def using x by (rule floor_log2_bounds)
  then have m: "c \<le> x / ulp" using ulp by (simp add: field_simps)
  have "\<bar>of_int n - x / ulp\<bar> \<le> 1 / 2" unfolding n_def by (rule round_half_even_near)
  then have "c - 1 / 2 \<le> of_int n" using m by linarith
  then have "real_of_int (2 ^ 52 - 1) < of_int n" unfolding c by simp
  then have "2 ^ 52 - 1 < n" by (simp only: of_int_less_iff)
  then have "2 ^ 52 \<le> n" by simp
  then have "real_of_int (2 ^ 52) \<le> of_int n" by (simp only: of_int_le_iff)
  then have n: "c \<le> of_int n" unfolding c .
  have "2 powr of_int 1024 \<le> (2::real) powr of_int e"
    by (rule powr_mono) (use e in simp_all)
  also have "\<dots> = c * ulp" by (rule split)
  also have "\<dots> \<le> of_int n * ulp" using n ulp by (simp add: mult_right_mono)
  finally have "2 powr of_int 1024 \<le> of_int n * ulp" .
  moreover have "0 \<le> of_int n * ulp" using le ulp n c by (simp add: c_def)
  ultimately have "2 powr of_int 1024 \<le> \<bar>of_int n * ulp\<bar>" by simp
  moreover have "(2::real) powr of_int 1024 = 2 ^ 1024" by simp
  ultimately have "2 ^ 1024 \<le> \<bar>of_int n * ulp\<bar>" by simp
  then show ?thesis
    using x mx
    unfolding to_double_def Let_def n_def ulp_def e_def by simp
qed

lemma to_double_dyadic:
  assumes "\<bar>n\<bar> < 2 ^ 53" and "- 1074 \<le> k" and "k \<le> 971"
  shows "to_double (of_int n * 2 powr of_int k) = Fin (of_int n * 2 powr of_int k)"
proof (cases "n = 0")
  case True
  then show ?thesis by simp
next
  case False
  define x :: real where "x = of_int n * 2 powr of_int k"
  define a where "a = \<bar>x\<bar>"
  define e where "e = max \<lfloor>log 2 a\<rfloor> (- 1022)"
  define ulp :: real where "ulp = 2 powr of_int (e - 52)"
  define c :: real where "c = 2 powr of_int 53"
  have c: "c = of_int (2 ^ 53)" by (simp add: c_def)
  have pk: "(0::real) < 2 powr of_int k" by simp
  have a_eq: "a = of_int \<bar>n\<bar> * 2 powr of_int k"
    unfolding a_def x_def using pk by (simp add: abs_mult)
  have x0: "x \<noteq> 0" unfolding x_def using False pk by simp
  then have a: "0 < a" by (simp add: a_def)
  have ulp: "0 < ulp" by (simp add: ulp_def)
  have "real_of_int \<bar>n\<bar> < of_int (2 ^ 53)" using assms(1) by (simp only: of_int_less_iff)
  then have "a < c * 2 powr of_int k" unfolding a_eq c using pk by (simp add: mult_strict_right_mono)
  also have "c * 2 powr of_int k = 2 powr (of_int 53 + of_int k)"
    unfolding c_def by (rule powr_add [symmetric])
  also have "\<dots> = 2 powr of_int (53 + k)"
    by (rule arg_cong [where f = "\<lambda>t. 2 powr t"]) simp
  finally have up: "a < 2 powr of_int (53 + k)" .
  have "2 powr of_int \<lfloor>log 2 a\<rfloor> \<le> a" using a by (rule floor_log2_bounds)
  also note up
  finally have "(of_int \<lfloor>log 2 a\<rfloor> :: real) < of_int (53 + k)" by (simp only: powr_less_cancel_iff)
  then have "\<lfloor>log 2 a\<rfloor> < 53 + k" by (simp only: of_int_less_iff)
  then have ek: "e - 52 \<le> k" using assms(2) unfolding e_def by linarith
  define j where "j = nat (k - (e - 52))"
  have j: "of_int k = real j + of_int (e - 52)" using ek by (simp add: j_def)
  have "(2::real) powr of_int k = 2 powr (real j + of_int (e - 52))" by (simp only: j)
  also have "\<dots> = 2 powr real j * ulp" unfolding ulp_def by (rule powr_add)
  also have "2 powr real j = (2::real) ^ j" by (rule powr_realpow) simp
  finally have pk_eq: "(2::real) powr of_int k = 2 ^ j * ulp" .
  have xm: "x / ulp = of_int (n * 2 ^ j)"
    unfolding x_def pk_eq using ulp by simp
  have r: "of_int (round_half_even (x / ulp)) * ulp = x"
    unfolding xm round_half_even_int unfolding x_def pk_eq by simp
  have "a < 2 powr of_int (53 + k)" by (rule up)
  also have "\<dots> \<le> 2 powr of_int 1024" by (rule powr_mono) (use assms(3) in simp_all)
  also have "\<dots> = 2 ^ 1024" by simp
  finally have "\<not> 2 ^ 1024 \<le> \<bar>x\<bar>" by (simp add: a_def)
  then have "to_double x = Fin x"
    using x0 r unfolding to_double_def Let_def ulp_def e_def a_def by simp
  then show ?thesis unfolding x_def .
qed

lemma to_double_5_2: "to_double (5 / 2) = Fin (5 / 2)"
  using to_double_dyadic [of 5 "- 1"] by (simp add: powr_minus)

lemma to_double_1e309: "to_double (10 ^ 309) = PInf"
  by (rule to_double_overflow) simp

lemma floor_log2_eq:
  assumes "2 powr of_int k \<le> a" and "a < 2 powr of_int (k + 1)"
  shows "\<lfloor>log 2 a\<rfloor> = k"
proof -
  have "(0::real) < 2 powr of_int k" by simp
  then have a: "0 < a" using assms(1) by linarith
  have "2 powr of_int \<lfloor>log 2 a\<rfloor> \<le> a" using a by (rule floor_log2_bounds)
  also note assms(2)
  finally have "(of_int \<lfloor>log 2 a\<rfloor> :: real) < of_int (k + 1)"
    by (simp only: powr_less_cancel_iff)
  then have 1: "\<lfloor>log 2 a\<rfloor> < k + 1" by (simp only: of_int_less_iff)
  note assms(1)
  also have "a < 2 powr of_int (\<lfloor>log 2 a\<rfloor> + 1)" using a by (rule floor_log2_bounds)
  finally have "(of_int k :: real) < of_int (\<lfloor>log 2 a\<rfloor> + 1)"
    by (simp only: powr_less_cancel_iff)
  then have "k < \<lfloor>log 2 a\<rfloor> + 1" by (simp only: of_int_less_iff)
  then show ?thesis using 1 by simp
qed

lemma to_double_eval:
  assumes "2 powr of_int k \<le> \<bar>x\<bar>" and "\<bar>x\<bar> < 2 powr of_int (k + 1)"
  shows "to_double x =
           (let e = max k (- 1022);
                ulp = 2 powr of_int (e - 52);
                r = of_int (round_half_even (x / ulp)) * ulp
            in if 2 ^ 1024 \<le> \<bar>r\<bar> then (if 0 < x then PInf else NInf) else Fin r)"
proof -
  have "(0::real) < 2 powr of_int k" by simp
  then have "x \<noteq> 0" using assms(1) by auto
  moreover have "\<lfloor>log 2 \<bar>x\<bar>\<rfloor> = k" using assms by (rule floor_log2_eq)
  ultimately show ?thesis by (simp add: to_double_def)
qed

lemma round_half_even_minus: "round_half_even (- y) = - round_half_even y"
proof (cases "y = of_int \<lfloor>y\<rfloor>")
  case True
  then obtain n where "y = of_int n" ..
  then show ?thesis
    using round_half_even_int [of n] round_half_even_int [of "- n"] by simp
next
  case False
  then have lt: "of_int \<lfloor>y\<rfloor> < y" "y < of_int \<lfloor>y\<rfloor> + 1" by linarith+
  have f: "\<lfloor>- y\<rfloor> = - \<lfloor>y\<rfloor> - 1" by (rule floor_unique) (use lt in \<open>simp; linarith\<close>)+
  show ?thesis
    unfolding round_half_even_def Let_def f using lt by auto
qed

lemma to_double_minus: "to_double (- x) = jneg (to_double x)"
proof (cases "x = 0")
  case True
  then show ?thesis by simp
next
  case False
  then show ?thesis
    by (simp add: to_double_def Let_def round_half_even_minus)
qed


lemma round_half_even_up:
  assumes "of_int N - 1 / 2 \<le> y" and "even N"
  shows "N \<le> round_half_even y"
proof -
  have "of_int (N - 1) \<le> y" using assms(1) by simp
  then have f: "N - 1 \<le> \<lfloor>y\<rfloor>" by (simp only: le_floor_iff)
  show ?thesis
  proof (cases "N \<le> \<lfloor>y\<rfloor>")
    case True
    then show ?thesis by (auto simp: round_half_even_def Let_def)
  next
    case False
    then have eq: "\<lfloor>y\<rfloor> = N - 1" using f by simp
    have "odd (N - 1)" using assms(2) by simp
    then show ?thesis
      unfolding round_half_even_def Let_def eq using assms(1) by auto
  qed
qed

lemma to_double_large:
  assumes "2 ^ 1024 - 2 ^ 970 \<le> x"
  shows "to_double x = PInf"
proof (cases "2 powr of_int 1024 \<le> x")
  case True
  then show ?thesis by (rule to_double_overflow)
next
  case False
  have x: "0 < x" using assms by simp
  have lo: "2 powr of_int 1023 \<le> \<bar>x\<bar>" using assms by simp
  have hi: "\<bar>x\<bar> < 2 powr of_int (1023 + 1)" using False x by simp
  define n where "n = round_half_even (x / 2 powr of_int 971)"
  have "real_of_int (2 ^ 53) - 1 / 2 \<le> x / 2 powr of_int 971"
    using assms by (simp add: field_simps)
  then have "2 ^ 53 \<le> n" unfolding n_def by (rule round_half_even_up) simp
  then have "real_of_int (2 ^ 53) \<le> of_int n" by (simp only: of_int_le_iff)
  then have "real_of_int (2 ^ 53) * 2 powr of_int 971 \<le> of_int n * 2 powr of_int 971"
    by (rule mult_right_mono) simp
  then have big: "2 ^ 1024 \<le> \<bar>real_of_int n * 2 powr of_int 971\<bar>" by simp
  have "max (1023::int) (- 1022) - 52 = 971" by simp
  then show ?thesis
    unfolding to_double_eval [OF lo hi] Let_def
    using big x unfolding n_def by simp
qed

lemma to_double_small:
  assumes "0 < x" and "x < 2 ^ 1024 - 2 ^ 970"
  shows "\<exists>r. to_double x = Fin r"
proof (cases "x < 2 powr of_int 1023")
  case True
  then have "\<bar>x\<bar> < 2 powr of_int 1023" using assms(1) by simp
  then show ?thesis by (rule to_double_finite_below) simp
next
  case False
  have lo: "2 powr of_int 1023 \<le> \<bar>x\<bar>" using False assms(1) by simp
  have hi: "\<bar>x\<bar> < 2 powr of_int (1023 + 1)" using assms by simp
  define n where "n = round_half_even (x / 2 powr of_int 971)"
  have m: "x / 2 powr of_int 971 < real_of_int (2 ^ 53) - 1 / 2"
    using assms(2) by (simp add: field_simps)
  have m0: "0 < x / 2 powr of_int 971" using assms(1) by simp
  have near: "\<bar>of_int n - x / 2 powr of_int 971\<bar> \<le> 1 / 2"
    unfolding n_def by (rule round_half_even_near)
  have "real_of_int n < of_int (2 ^ 53)" using near m by linarith
  then have "n < 2 ^ 53" by (simp only: of_int_less_iff)
  then have "n \<le> 2 ^ 53 - 1" by simp
  then have up: "real_of_int n \<le> of_int (2 ^ 53 - 1)" by (simp only: of_int_le_iff)
  have "- (1 / 2) < real_of_int n" using near m0 by linarith
  then have "real_of_int (- 1) < of_int n" by simp
  then have "- 1 < n" by (simp only: of_int_less_iff)
  then have n0: "0 \<le> real_of_int n" by simp
  have "real_of_int n * 2 powr of_int 971 \<le> of_int (2 ^ 53 - 1) * 2 powr of_int 971"
    using up by (rule mult_right_mono) simp
  also have "\<dots> < 2 ^ 1024" by simp
  finally have "real_of_int n * 2 powr of_int 971 < 2 ^ 1024" .
  moreover have "0 \<le> real_of_int n * 2 powr of_int 971" using n0 by simp
  ultimately have small: "\<not> 2 ^ 1024 \<le> \<bar>real_of_int n * 2 powr of_int 971\<bar>" by simp
  have "max (1023::int) (- 1022) - 52 = 971" by simp
  then have "to_double x = Fin (real_of_int n * 2 powr of_int 971)"
    unfolding to_double_eval [OF lo hi] Let_def
    using small unfolding n_def by simp
  then show ?thesis by blast
qed

lemma to_double_finite_iff:
  "(\<exists>r. to_double x = Fin r) \<longleftrightarrow> \<bar>x\<bar> < 2 ^ 1024 - 2 ^ 970"
proof -
  have pos: "(\<exists>r. to_double y = Fin r) \<longleftrightarrow> y < 2 ^ 1024 - 2 ^ 970" if "0 < y" for y
  proof (cases "y < 2 ^ 1024 - 2 ^ 970")
    case True
    then show ?thesis using to_double_small [OF that] by simp
  next
    case False
    then have "to_double y = PInf" by (intro to_double_large) simp
    then show ?thesis using False by simp
  qed
  consider "x = 0" | "0 < x" | "x < 0" by linarith
  then show ?thesis
  proof cases
    case 1
    then show ?thesis by simp
  next
    case 2
    then show ?thesis using pos [of x] by simp
  next
    case 3
    then have "0 < - x" by simp
    from pos [OF this] have "(\<exists>r. jneg (to_double x) = Fin r) \<longleftrightarrow> \<bar>x\<bar> < 2 ^ 1024 - 2 ^ 970"
      using 3 by (simp add: to_double_minus)
    moreover have "(\<exists>r. jneg (to_double x) = Fin r) \<longleftrightarrow> (\<exists>r. to_double x = Fin r)"
      by (cases "to_double x") auto
    ultimately show ?thesis by simp
  qed
qed

lemma isFinite_to_double: "isFinite (to_double x) \<longleftrightarrow> \<bar>x\<bar> < 2 ^ 1024 - 2 ^ 970"
  using to_double_finite_iff [of x] by (cases "to_double x") (auto simp: isFinite_def)

lemma to_double_1279_512: "to_double (1279 / 512) = Fin (1279 / 512)"
  using to_double_dyadic [of 1279 "- 9"] by (simp add: powr_minus)

lemma to_double_1: "to_double 1 = Fin 1"
  using to_double_dyadic [of 1 0] by simp

lemma to_double_201_200: "to_double (201 / 200) = Fin (1131529406376837 / 1125899906842624)"
proof -
  have "to_double (201 / 200) =
          (let e = max 0 (- 1022);
               ulp = 2 powr of_int (e - 52);
               r = of_int (round_half_even (201 / 200 / ulp)) * ulp
           in if 2 ^ 1024 \<le> \<bar>r\<bar> then (if (0::real) < 201 / 200 then PInf else NInf) else Fin r)"
    by (rule to_double_eval) simp_all
  then show ?thesis
    by (simp add: Let_def powr_minus round_half_even_def)
qed

lemma jmul_NaN_right [simp]: "jmul x NaN = NaN"
  by (cases x) simp_all

section \<open>The wire form of a time, read back\<close>

lemma DayFromYear_1970: "DayFromYear 1970 = 0"
  by (simp add: DayFromYear_def)

lemma DayFromYear_upper: "0 \<le> k \<Longrightarrow> DayFromYear (1970 + k) \<le> 366 * k"
proof (induction k rule: int_ge_induct)
  case base
  show ?case by (simp add: DayFromYear_1970)
next
  case (step i)
  have "DayFromYear (1970 + i + 1) = DayFromYear (1970 + i) + 365 + InLeapYear (1970 + i)"
    by (rule DayFromYear_Suc)
  moreover have "InLeapYear (1970 + i) \<le> 1" by (simp add: InLeapYear_def)
  moreover have "1970 + (i + 1) = 1970 + i + 1" by simp
  ultimately show ?case using step.IH by simp
qed

lemma DayFromYear_lower: "k \<le> 0 \<Longrightarrow> DayFromYear (1970 + k) \<le> 365 * k"
proof (induction k rule: int_le_induct)
  case base
  show ?case by (simp add: DayFromYear_1970)
next
  case (step i)
  have "DayFromYear (1970 + (i - 1) + 1) = DayFromYear (1970 + (i - 1)) + 365 + InLeapYear (1970 + (i - 1))"
    by (rule DayFromYear_Suc)
  moreover have "0 \<le> InLeapYear (1970 + (i - 1))" by (simp add: InLeapYear_def)
  moreover have "1970 + (i - 1) + 1 = 1970 + i" by simp
  ultimately show ?case using step.IH by simp
qed

lemma year_start_le:
  "DayFromYear (1970 + (if 0 \<le> day then day div 366 else day div 365)) \<le> day"
proof (cases "0 \<le> day")
  case True
  define q where "q = day div 366"
  have "366 * q + day mod 366 = day" unfolding q_def by (rule mult_div_mod_eq)
  moreover have "0 \<le> day mod 366" by simp
  ultimately have le: "366 * q \<le> day" by linarith
  have "0 \<le> q" unfolding q_def using True by (rule pos_imp_zdiv_nonneg_iff [THEN iffD2, rotated]) simp
  then have "DayFromYear (1970 + q) \<le> 366 * q" by (rule DayFromYear_upper)
  then show ?thesis using True le by (simp add: q_def)
next
  case False
  define q where "q = day div 365"
  have "365 * q + day mod 365 = day" unfolding q_def by (rule mult_div_mod_eq)
  moreover have "0 \<le> day mod 365" by simp
  ultimately have le: "365 * q \<le> day" by linarith
  have "q < 0" unfolding q_def using False by (simp add: div_neg_pos_less0)
  then have "DayFromYear (1970 + q) \<le> 365 * q" using DayFromYear_lower [of q] by simp
  then show ?thesis using False le by (simp add: q_def)
qed

lemma year_search_bounds:
  "DayFromYear y \<le> day \<Longrightarrow>
   DayFromYear (year_search y day) \<le> day \<and> day < DayFromYear (year_search y day + 1)"
proof (induction y day rule: year_search.induct)
  case (1 y day)
  show ?case
  proof (cases "DayFromYear (y + 1) \<le> day")
    case True
    then show ?thesis using "1.IH" by (subst (1 2) year_search.simps) simp
  next
    case False
    then show ?thesis using "1.prems" by (subst (1 2) year_search.simps) simp
  qed
qed

lemma YearFromDay_bounds:
  "DayFromYear (YearFromDay day) \<le> day \<and> day < DayFromYear (YearFromDay day + 1)"
  unfolding YearFromDay_def by (rule year_search_bounds) (rule year_start_le)

lemma digit_of_digit_char: "d < 10 \<Longrightarrow> digit_of (digit_char d) = Some d"
proof -
  assume d: "d < 10"
  have "of_char (char_of (48 + d)) = (48 + d) mod 256" by (rule of_char_of)
  also have "\<dots> = 48 + d" using d by simp
  finally show ?thesis using d by (simp add: digit_of_def digit_char_def Let_def)
qed

lemma digit_of_dot: "digit_of CHR ''.'' = None"
  by (simp add: digit_of_def)

lemma digit_char_not_dot: "d < 10 \<Longrightarrow> digit_char d \<noteq> CHR ''.''"
  using digit_of_digit_char [of d] digit_of_dot by auto

lemma tens_digit:
  fixes v :: nat
  shows "10 * (v div 10 mod 10) + v mod 10 = v mod 100"
proof -
  have "v mod (10 * 10) = 10 * (v div 10 mod 10) + v mod 10" by (rule mod_mult2_eq)
  then show ?thesis by simp
qed

lemma digits2_pad2: "digits2 (pad2 v @ rest) = Some (v mod 100, rest)"
proof -
  have "digit_of (digit_char (v div 10 mod 10)) = Some (v div 10 mod 10)"
    by (rule digit_of_digit_char) simp
  moreover have "digit_of (digit_char (v mod 10)) = Some (v mod 10)"
    by (rule digit_of_digit_char) simp
  ultimately show ?thesis
    by (simp add: digits2_def pad2_def tens_digit)
qed

lemma digits4_pad4: "v < 10000 \<Longrightarrow> digits4 (pad4 v @ rest) = Some (v, rest)"
proof -
  assume v: "v < 10000"
  have hi: "v div 100 mod 100 = v div 100"
    using v by (simp add: div_less_iff_less_mult)
  have "100 * (v div 100) + v mod 100 = v" by (rule mult_div_mod_eq)
  then show ?thesis
    by (simp add: digits4_def pad4_def digits2_pad2 hi)
qed

lemma takeWhile_pad2:
  "takeWhile (\<lambda>c. c \<noteq> CHR ''.'') (pad2 v @ rest) = pad2 v @ takeWhile (\<lambda>c. c \<noteq> CHR ''.'') rest"
  by (simp add: pad2_def digit_char_not_dot)

lemma takeWhile_pad4:
  "takeWhile (\<lambda>c. c \<noteq> CHR ''.'') (pad4 v @ rest) = pad4 v @ takeWhile (\<lambda>c. c \<noteq> CHR ''.'') rest"
  by (simp add: pad4_def takeWhile_pad2)

lemma month_date:
  assumes "0 \<le> d" and "d < 365 + leap" and "leap = 0 \<or> leap = 1"
  shows "0 \<le> MonthFromDay d leap \<and> MonthFromDay d leap \<le> 11
         \<and> 1 \<le> DateFromDay d leap
         \<and> DateFromDay d leap \<le> DaysInMonth (MonthFromDay d leap) leap"
  using assms unfolding MonthFromDay_def DateFromDay_def month_start_def DaysInMonth_def
  by auto

lemma combine_fields:
  fixes t S M H D ms s mi h :: int
  assumes "1000 * S + ms = t" and "60 * M + s = S" and "60 * H + mi = M" and "24 * D + h = H"
  shows "D * 86400000 + h * 3600000 + mi * 60000 + s * 1000 = t - ms"
  using assms by simp

lemma time_fields:
  fixes t :: int
  shows "t div 86400000 * 86400000 + (t div 3600000 mod 24) * 3600000
         + (t div 60000 mod 60) * 60000 + (t div 1000 mod 60) * 1000 = t - t mod 1000"
proof -
  have a: "t div 60000 = t div 1000 div 60"
    using zdiv_zmult2_eq [of 60 t 1000] by simp
  have b: "t div 3600000 = t div 60000 div 60"
    using zdiv_zmult2_eq [of 60 t 60000] by simp
  have c: "t div 86400000 = t div 3600000 div 24"
    using zdiv_zmult2_eq [of 24 t 3600000] by simp
  have 1: "1000 * (t div 1000) + t mod 1000 = t" by (rule mult_div_mod_eq)
  have 2: "60 * (t div 60000) + t div 1000 mod 60 = t div 1000"
    unfolding a by (rule mult_div_mod_eq)
  have 3: "60 * (t div 3600000) + t div 60000 mod 60 = t div 60000"
    unfolding b by (rule mult_div_mod_eq)
  have 4: "24 * (t div 86400000) + t div 3600000 mod 24 = t div 3600000"
    unfolding c by (rule mult_div_mod_eq)
  show ?thesis by (rule combine_fields [OF 1 2 3 4])
qed

lemma DayFromYear_mono: "a \<le> b \<Longrightarrow> DayFromYear a \<le> DayFromYear b"
proof (induction b rule: int_ge_induct)
  case base
  show ?case by simp
next
  case (step i)
  have "DayFromYear (i + 1) = DayFromYear i + 365 + InLeapYear i" by (rule DayFromYear_Suc)
  moreover have "0 \<le> InLeapYear i" by (simp add: InLeapYear_def)
  ultimately show ?case using step.IH by simp
qed

lemma DayFromYear_10000: "DayFromYear 10000 = 2932897"
  by (simp add: DayFromYear_def)

lemma day_range:
  fixes t :: int
  assumes "0 \<le> t" and "t < 253402300800000"
  shows "0 \<le> t div 86400000 \<and> t div 86400000 < 2932897"
proof -
  define D r where "D = t div 86400000" and "r = t mod 86400000"
  have eq: "86400000 * D + r = t" unfolding D_def r_def by (rule mult_div_mod_eq)
  have r: "0 \<le> r" "r < 86400000" unfolding r_def by simp_all
  have "0 \<le> D \<and> D < 2932897" using eq r assms by linarith
  then show ?thesis unfolding D_def .
qed

lemma year_range:
  fixes t :: int
  assumes "0 \<le> t" and "t < 253402300800000"
  shows "1970 \<le> YearFromDay (t div 86400000) \<and> YearFromDay (t div 86400000) \<le> 9999"
proof -
  define day where "day = t div 86400000"
  define y where "y = YearFromDay day"
  have day: "0 \<le> day" "day < 2932897"
    using day_range [OF assms] by (simp_all add: day_def)
  have b: "DayFromYear y \<le> day" "day < DayFromYear (y + 1)"
    using YearFromDay_bounds [of day] by (simp_all add: y_def)
  have "1970 \<le> y"
  proof (rule ccontr)
    assume "\<not> 1970 \<le> y"
    then have "y + 1 \<le> 1970" by simp
    then have "DayFromYear (y + 1) \<le> DayFromYear 1970" by (rule DayFromYear_mono)
    then show False using b(2) day(1) by (simp add: DayFromYear_1970)
  qed
  moreover have "y \<le> 9999"
  proof (rule ccontr)
    assume "\<not> y \<le> 9999"
    then have "10000 \<le> y" by simp
    then have "DayFromYear 10000 \<le> DayFromYear y" by (rule DayFromYear_mono)
    then show False using b(1) day(2) by (simp add: DayFromYear_10000)
  qed
  ultimately show ?thesis by (simp add: y_def day_def)
qed

lemma toIXONISOString_iso_seconds:
  fixes t :: int
  assumes "0 \<le> t" and "t < 253402300800000"
  shows "toIXONISOString t = Inr (iso_seconds t)"
proof -
  have y: "0 \<le> YearFromDay (t div 86400000) \<and> YearFromDay (t div 86400000) \<le> 9999"
    using year_range [OF assms] by simp
  have r: "\<not> (t < - 8640000000000000 \<or> 8640000000000000 < t)"
    using assms by simp
  show ?thesis
    unfolding toIXONISOString_def toISOString_def iso_seconds_def Let_def
    by (simp only: r y if_True if_False sum.case append_assoc takeWhile_pad4 takeWhile_pad2
        append_Cons append_Nil takeWhile.simps char.inject simp_thms)
qed

lemma expect_Cons: "expect c (c # rest) = Some rest"
  by (simp add: expect_def)

lemma parse_fields_string:
  assumes "y < 10000" and "mo < 100" and "d < 100" and "h < 100" and "mi < 100" and "se < 100"
  shows "parse_fields (pad4 y @ ''-'' @ pad2 mo @ ''-'' @ pad2 d @ ''T'' @ pad2 h
                       @ '':'' @ pad2 mi @ '':'' @ pad2 se @ ''Z'')
         = Some (y, mo, d, h, mi, se)"
  using assms
  by (simp add: parse_fields_def digits4_pad4 digits2_pad2 expect_Cons)

lemma InLeapYear_cases: "InLeapYear y = 0 \<or> InLeapYear y = 1"
  by (simp add: InLeapYear_def)

lemma DaysInMonth_le: "leap = 0 \<or> leap = 1 \<Longrightarrow> DaysInMonth m leap \<le> 31"
  by (auto simp: DaysInMonth_def)

lemma Date_parse_iso_seconds:
  fixes t :: int
  assumes "0 \<le> t" and "t < 253402300800000"
  shows "Date_parse (iso_seconds t) = Fin (of_int (t - t mod 1000))"
proof -
  define day where "day = t div 86400000"
  define y where "y = YearFromDay day"
  define leap where "leap = InLeapYear y"
  define d where "d = day - DayFromYear y"
  define mo where "mo = MonthFromDay d leap"
  define dd where "dd = DateFromDay d leap"
  define h where "h = t div 3600000 mod 24"
  define mi where "mi = t div 60000 mod 60"
  define se where "se = t div 1000 mod 60"
  have str: "iso_seconds t = pad4 (nat y) @ ''-'' @ pad2 (nat (mo + 1)) @ ''-'' @ pad2 (nat dd)
               @ ''T'' @ pad2 (nat h) @ '':'' @ pad2 (nat mi) @ '':'' @ pad2 (nat se) @ ''Z''"
    unfolding iso_seconds_def Let_def day_def y_def leap_def d_def mo_def dd_def h_def mi_def
      se_def ..
  have yr: "1970 \<le> y" "y \<le> 9999"
    using year_range [OF assms] by (simp_all add: y_def day_def)
  have b: "DayFromYear y \<le> day" "day < DayFromYear (y + 1)"
    using YearFromDay_bounds [of day] by (simp_all add: y_def)
  have lp: "leap = 0 \<or> leap = 1" unfolding leap_def by (rule InLeapYear_cases)
  have "DayFromYear (y + 1) = DayFromYear y + 365 + leap"
    unfolding leap_def by (rule DayFromYear_Suc)
  then have dr: "0 \<le> d" "d < 365 + leap" using b by (simp_all add: d_def)
  have md: "0 \<le> mo" "mo \<le> 11" "1 \<le> dd" "dd \<le> DaysInMonth mo leap"
    using month_date [OF dr lp] by (simp_all add: mo_def dd_def)
  have dd31: "dd \<le> 31" using md(4) DaysInMonth_le [OF lp, of mo] by simp
  have hr: "0 \<le> h" "h < 24" by (simp_all add: h_def)
  have mr: "0 \<le> mi" "mi < 60" by (simp_all add: mi_def)
  have sr: "0 \<le> se" "se < 60" by (simp_all add: se_def)
  have pf: "parse_fields (iso_seconds t)
            = Some (nat y, nat (mo + 1), nat dd, nat h, nat mi, nat se)"
    unfolding str using yr md dd31 hr mr sr by (intro parse_fields_string) simp_all
  have start: "month_start mo leap + dd - 1 = d"
    by (simp add: dd_def DateFromDay_def mo_def)
  have tf: "day * 86400000 + h * 3600000 + mi * 60000 + se * 1000 = t - t mod 1000"
    unfolding day_def h_def mi_def se_def by (rule time_fields)
  have "(DayFromYear y + month_start mo leap + dd - 1) * 86400000
          + h * 3600000 + mi * 60000 + se * 1000 = t - t mod 1000"
  proof -
    have "DayFromYear y + month_start mo leap + dd - 1 = day"
      using start by (simp add: d_def)
    then show ?thesis using tf by simp
  qed
  then have val: "(DayFromYear (int (nat y)) + month_start (int (nat (mo + 1)) - 1) (InLeapYear (int (nat y)))
            + int (nat dd) - 1) * 86400000
          + int (nat h) * 3600000 + int (nat mi) * 60000 + int (nat se) * 1000 = t - t mod 1000"
    using yr md hr mr sr by (simp add: leap_def)
  have ok: "1 \<le> nat (mo + 1) \<and> nat (mo + 1) \<le> 12 \<and> 1 \<le> nat dd
             \<and> int (nat dd) \<le> DaysInMonth (int (nat (mo + 1)) - 1) (InLeapYear (int (nat y)))
             \<and> nat h \<le> 23 \<and> nat mi \<le> 59 \<and> nat se \<le> 59"
  proof -
    have "1 \<le> nat (mo + 1) \<and> nat (mo + 1) \<le> 12 \<and> 1 \<le> nat dd
          \<and> nat h \<le> 23 \<and> nat mi \<le> 59 \<and> nat se \<le> 59"
      using md hr mr sr by linarith
    moreover have "int (nat dd) \<le> DaysInMonth (int (nat (mo + 1)) - 1) (InLeapYear (int (nat y)))"
      using yr md by (simp add: leap_def)
    ultimately show ?thesis by simp
  qed
  show ?thesis
    unfolding Date_parse_def pf using ok val by (simp only: option.case prod.case simp_thms if_True)
qed

lemma Date_parse_toIXONISOString:
  fixes t :: int
  assumes "0 \<le> t" and "t < 253402300800000"
  shows "\<exists>s. toIXONISOString t = Inr s \<and> Date_parse s = Fin (of_int (t - t mod 1000))"
  using toIXONISOString_iso_seconds [OF assms] Date_parse_iso_seconds [OF assms] by simp

section \<open>Statistics: the mean and the population standard deviation\<close>

lemma foldl_jadd_Fin:
  "foldl (\<lambda>acc d. jadd acc (Fin (f d))) (Fin a) xs = Fin (a + sum_list (map f xs))"
  by (induction xs arbitrary: a) (simp_all add: add.assoc)

lemma foldl_cong_set:
  "(\<And>acc d. d \<in> set xs \<Longrightarrow> g acc d = h acc d) \<Longrightarrow> foldl g a xs = foldl h a xs"
  by (induction xs arbitrary: a) simp_all

lemma all_finite_value:
  "all_finite data \<Longrightarrow> d \<in> set data \<Longrightarrow>
     p_value d = Fin (case p_value d of Fin v \<Rightarrow> v | _ \<Rightarrow> 0)"
  by (auto simp: all_finite_def isFinite_def list_all_iff split: jsnum.splits)

lemma sum_values:
  assumes "all_finite data"
  shows "foldl (\<lambda>acc d. jadd acc (p_value d)) (Fin 0) data = Fin (sum_list (values_of data))"
proof -
  let ?f = "\<lambda>d. case p_value d of Fin v \<Rightarrow> v | _ \<Rightarrow> 0"
  have "foldl (\<lambda>acc d. jadd acc (p_value d)) (Fin 0) data
        = foldl (\<lambda>acc d. jadd acc (Fin (?f d))) (Fin 0) data"
    by (rule foldl_cong_set) (use all_finite_value [OF assms] in simp)
  then show ?thesis
    by (simp add: foldl_jadd_Fin values_of_def)
qed

lemma sum_squares:
  assumes "all_finite data"
  shows "foldl (\<lambda>acc d. jadd acc (jpow2 (jsub (p_value d) (Fin mu)))) (Fin 0) data
         = Fin (\<Sum>v\<leftarrow>values_of data. (v - mu) * (v - mu))"
proof -
  let ?f = "\<lambda>d. case p_value d of Fin v \<Rightarrow> v | _ \<Rightarrow> 0"
  let ?g = "\<lambda>d. (?f d - mu) * (?f d - mu)"
  have step: "jadd acc (jpow2 (jsub (p_value d) (Fin mu))) = jadd acc (Fin (?g d))"
    if d: "d \<in> set data" for acc d
  proof -
    obtain v where v: "p_value d = Fin v"
      using all_finite_value [OF assms d] by blast
    show ?thesis
      by (simp add: v jsub_def)
  qed
  have "foldl (\<lambda>acc d. jadd acc (jpow2 (jsub (p_value d) (Fin mu)))) (Fin 0) data
        = foldl (\<lambda>acc d. jadd acc (Fin (?g d))) (Fin 0) data"
    by (rule foldl_cong_set) (rule step)
  then show ?thesis
    by (simp add: foldl_jadd_Fin values_of_def comp_def)
qed

text \<open>
  Claim C9. For a non-empty sequence of finite values, \<^verbatim>\<open>calculateStatistics\<close> returns the
  arithmetic mean of the values, and the square root of the population variance: the sum
  of the squared distances to the mean divided by \<^verbatim>\<open>n\<close>, not by \<^verbatim>\<open>n - 1\<close>.
\<close>

theorem calculateStatistics_population:
  assumes "data \<noteq> []" and "all_finite data"
  shows "calculateStatistics data
         = \<lparr>mean = Fin (arithmetic_mean (values_of data)),
            standardDeviation = Fin (sqrt (population_variance (values_of data)))\<rparr>"
proof -
  define n where "n = real (length data)"
  define mu where "mu = arithmetic_mean (values_of data)"
  have n: "n \<noteq> 0" using assms(1) by (simp add: n_def)
  have len: "real (length (values_of data)) = n"
    by (simp add: values_of_def n_def)
  have m: "jdiv (foldl (\<lambda>acc d. jadd acc (p_value d)) (Fin 0) data) (Fin n) = Fin mu"
    using n by (simp add: sum_values [OF assms(2)] mu_def arithmetic_mean_def len)
  have var: "population_variance (values_of data)
             = (\<Sum>v\<leftarrow>values_of data. (v - mu) * (v - mu)) / n"
    by (simp add: population_variance_def mu_def len)
  have nonneg: "0 \<le> population_variance (values_of data)"
    unfolding var by (intro divide_nonneg_nonneg sum_list_nonneg) (auto simp: n_def)
  have "jsqrt (jdiv (foldl (\<lambda>acc d. jadd acc (jpow2 (jsub (p_value d) (Fin mu)))) (Fin 0) data)
                 (Fin n))
        = jsqrt (Fin (population_variance (values_of data)))"
    using n by (simp add: sum_squares [OF assms(2)] var)
  also have "\<dots> = Fin (sqrt (population_variance (values_of data)))"
    using nonneg by simp
  finally have sd: "jsqrt (jdiv (foldl (\<lambda>acc d. jadd acc (jpow2 (jsub (p_value d) (Fin mu))))
                       (Fin 0) data) (Fin n))
        = Fin (sqrt (population_variance (values_of data)))" .
  show ?thesis
    using m sd by (simp add: calculateStatistics_def Let_def n_def mu_def)
qed

text \<open>The scenario of the specification: the values 1, 2, 3, 4, 5 at the times 0 to 4.\<close>

theorem calculateStatistics_population_witness:
  "calculateStatistics
     [\<lparr>p_time = Fin 0, p_value = Fin 1\<rparr>, \<lparr>p_time = Fin 1, p_value = Fin 2\<rparr>,
      \<lparr>p_time = Fin 2, p_value = Fin 3\<rparr>, \<lparr>p_time = Fin 3, p_value = Fin 4\<rparr>,
      \<lparr>p_time = Fin 4, p_value = Fin 5\<rparr>]
   = \<lparr>mean = Fin 3, standardDeviation = Fin (sqrt 2)\<rparr>"
  using calculateStatistics_population
    [of "[\<lparr>p_time = Fin 0, p_value = Fin 1\<rparr>, \<lparr>p_time = Fin 1, p_value = Fin 2\<rparr>,
          \<lparr>p_time = Fin 2, p_value = Fin 3\<rparr>, \<lparr>p_time = Fin 3, p_value = Fin 4\<rparr>,
          \<lparr>p_time = Fin 4, p_value = Fin 5\<rparr>]"]
  by (simp add: all_finite_def isFinite_def values_of_def arithmetic_mean_def
      population_variance_def)

section \<open>The curve of a degenerate distribution\<close>

lemma normal_loop_never_ends:
  "normal_loop (Fin c) (Fin 0) n (Fin 0) (Fin c) xs ys mx = None"
proof -
  have "\<forall>n xs ys mx. normal_loop (Fin c) (Fin 0) n (Fin 0) (Fin c) xs ys mx = None"
  proof (induction rule: normal_loop.fixp_induct)
    case 1
    show ?case
      by (auto simp: ccpo.admissible_def fun_lub_def flat_lub_def)
  next
    case 2
    show ?case by simp
  next
    case (3 f)
    then show ?case by simp
  qed
  then show ?thesis by blast
qed

text \<open>
  A standard deviation of zero with the bin size the caller derives from it
  (\<^verbatim>\<open>standardDeviation / 2\<close>): for more than one sample the loop never ends.
\<close>

lemma generateNormalDistributionData_sd_zero:
  "\<not> jle n (Fin 1) \<Longrightarrow>
   generateNormalDistributionData (Fin c) (Fin 0) n (jdiv (Fin 0) (Fin 2)) maxY = None"
  by (simp add: generateNormalDistributionData_def jsub_def normal_loop_never_ends)

lemma generateNormalDistributionData_few:
  "jle n (Fin 1) \<Longrightarrow> generateNormalDistributionData m sd n b maxY = Some []"
  by (simp add: generateNormalDistributionData_def)

text \<open>
  Claim C5, at the inputs where the code leaves it. With one sample or none the result is
  the empty sequence. With a standard deviation of zero and two samples the function
  never returns when the bin size is zero (what \<^verbatim>\<open>getDataAndDraw\<close> passes), and returns
  one sample with the value \<^verbatim>\<open>NaN\<close> when the bin size is one.
\<close>

theorem generateNormalDistributionData_degenerate:
  "generateNormalDistributionData (Fin 5) (Fin 0) (Fin 1) (Fin 0) (Fin 1) = Some []
   \<and> generateNormalDistributionData (Fin 5) (Fin 0) (Fin 2) (Fin 0) (Fin 2) = None
   \<and> generateNormalDistributionData (Fin 5) (Fin 0) (Fin 2) (Fin 1) (Fin 2)
       = Some [(Fin 5, NaN)]"
proof -
  have a: "generateNormalDistributionData (Fin 5) (Fin 0) (Fin 1) (Fin 0) (Fin 1) = Some []"
    by (simp add: generateNormalDistributionData_few)
  have b: "generateNormalDistributionData (Fin 5) (Fin 0) (Fin 2) (Fin 0) (Fin 2) = None"
    using generateNormalDistributionData_sd_zero [of "Fin 2" 5 "Fin 2"] by simp
  have y: "normalDistribution (Fin 5) (Fin 5) (Fin 0) = NaN"
    by (simp add: normalDistribution_def jsub_def)
  have "normal_loop (Fin 5) (Fin 0) (Fin 2) (Fin 1) (Fin 5) [] [] (Fin 0)
        = normal_loop (Fin 5) (Fin 0) (Fin 2) (Fin 1) (Fin 6) [Fin 5] [NaN] (Fin 0)"
    by (subst normal_loop.simps) (simp add: y jgt_def)
  also have "\<dots> = Some ([Fin 5], [NaN], Fin 0)"
    by (subst normal_loop.simps) simp
  finally have c: "generateNormalDistributionData (Fin 5) (Fin 0) (Fin 2) (Fin 1) (Fin 2)
       = Some [(Fin 5, NaN)]"
    by (simp add: generateNormalDistributionData_def jsub_def)
  show ?thesis using a b c by simp
qed

section \<open>The sequence the statistics are computed from\<close>

text \<open>
  Claim C10, at the input where the code leaves it. One point of value zero passes both
  emptiness checks; with \<^verbatim>\<open>ignoreZero\<close> set the filter then removes it, and
  \<^verbatim>\<open>calculateStatistics\<close> is called with the empty sequence: its mean is \<^verbatim>\<open>0 / 0\<close>.
\<close>

theorem statistics_argument_empty:
  "statistics_argument (Some [\<lparr>p_time = Fin 0, p_value = Fin 0\<rparr>]) True = Inr []
   \<and> mean (calculateStatistics []) = NaN
   \<and> getDataAndDraw (Some [\<lparr>p_time = Fin 0, p_value = Fin 0\<rparr>]) True
       = Some (Inl (NotEnoughData NaN))"
  by (simp add: statistics_argument_def getDataAndDraw_def calculateStatistics_def
      Array_sort_def Math_max_def generateNormalDistributionData_def)

section \<open>The count query\<close>

lemma toIXONISOString_0: "toIXONISOString 0 = Inr ''1970-01-01T00:00:00Z''"
  by code_simp

lemma toIXONISOString_60000: "toIXONISOString 60000 = Inr ''1970-01-01T00:01:00Z''"
  by code_simp

text \<open>
  Claim C4, as the code has it. When the answer to the count query is a JSON value other
  than \<^verbatim>\<open>null\<close>, \<^verbatim>\<open>_getTotalCount\<close> returns a count and throws nothing; the count is 0
  when the answer holds no \<^verbatim>\<open>data\<close>, no \<^verbatim>\<open>points\<close>, no first point or no value for the tag.
\<close>

theorem getTotalCount_defaults_to_zero:
  assumes "toIXONISOString (timeRange_from ctx) = Inr start"
    and "toIXONISOString (timeRange_to ctx) = Inr end'"
    and "fetch (count_request start end' sourceId tagSlug
                  (- ((timeRange_from ctx - timeRange_to ctx) div 1000))) 0
         = Response status (Json d)"
  shows "(\<exists>c. getTotalCount ctx fetch sourceId tagSlug = Inr c)
         \<and> (count_missing tagSlug d \<longrightarrow> getTotalCount ctx fetch sourceId tagSlug = Inr (Fin 0))"
  using assms
  by (auto simp: getTotalCount_def await_def read_count_def count_missing_def
      split: option.splits list.splits)

theorem getTotalCount_defaults_to_zero_witness:
  "(\<exists>c. getTotalCount \<lparr>timeRange_from = 0, timeRange_to = 60000\<rparr>
           (always (Response 200 (Json (Some None)))) ''source'' (Some ''tag'') = Inr c)
   \<and> count_missing (Some ''tag'') (Some None)
   \<and> getTotalCount \<lparr>timeRange_from = 0, timeRange_to = 60000\<rparr>
           (always (Response 200 (Json (Some None)))) ''source'' (Some ''tag'') = Inr (Fin 0)"
  using getTotalCount_defaults_to_zero
    [of "\<lparr>timeRange_from = 0, timeRange_to = 60000\<rparr>" "''1970-01-01T00:00:00Z''"
        "''1970-01-01T00:01:00Z''" "always (Response 200 (Json (Some None)))"
        "''source''" "Some ''tag''" 200 "Some None"]
  by (simp add: toIXONISOString_0 toIXONISOString_60000 count_missing_def always_def)

text \<open>An answer without \<^verbatim>\<open>data\<close> is no error: the count is 0.\<close>

theorem getTotalCount_not_fatal:
  "getTotalCount \<lparr>timeRange_from = 0, timeRange_to = 60000\<rparr>
     (always (Response 200 (Json None))) ''source'' (Some ''tag'') = Inr (Fin 0)"
  by (simp add: getTotalCount_def await_def read_count_def toIXONISOString_0
      toIXONISOString_60000 always_def)

section \<open>A page under a rate limit\<close>

lemma fetchRawDataPage_retry:
  assumes "toIXONISOString (timeRange_from ctx) = Inr start"
    and "toIXONISOString (timeRange_to ctx) = Inr end'"
    and "fetch (page_request start end' sourceId tagSlug offset limit) attempt = Response 429 b"
    and "0 < retries"
  shows "fetchRawDataPage ctx fetch sourceId tagSlug offset limit retries attempt
         = (case fetchRawDataPage ctx fetch sourceId tagSlug offset limit (retries - 1)
                   (Suc attempt) of
              (r, waits, sent) \<Rightarrow> (r, (4 - retries) * 1000 # waits, sent))"
  by (subst fetchRawDataPage.simps) (simp add: assms)

lemma fetchRawDataPage_last:
  assumes "toIXONISOString (timeRange_from ctx) = Inr start"
    and "toIXONISOString (timeRange_to ctx) = Inr end'"
    and "fetch (page_request start end' sourceId tagSlug offset limit) attempt = Response status b"
    and "status \<noteq> 429 \<or> retries \<le> 0"
  shows "fetchRawDataPage ctx fetch sourceId tagSlug offset limit retries attempt
         = (page_points b, [], Suc attempt)"
  using assms(4) by (subst fetchRawDataPage.simps) (auto simp add: assms(1-3))

lemma fetchRawDataPage_four_attempts:
  assumes w: "toIXONISOString (timeRange_from ctx) = Inr start"
    "toIXONISOString (timeRange_to ctx) = Inr end'"
    and r0: "fetch (page_request start end' sourceId tagSlug offset limit) 0 = Response 429 b0"
    and r1: "fetch (page_request start end' sourceId tagSlug offset limit) 1 = Response 429 b1"
    and r2: "fetch (page_request start end' sourceId tagSlug offset limit) 2 = Response 429 b2"
    and r3: "fetch (page_request start end' sourceId tagSlug offset limit) 3 = Response 429 b"
  shows "fetchRawDataPage ctx fetch sourceId tagSlug offset limit 3 0
           = (page_points b, [1000, 2000, 3000], 4)"
proof -
  have 3: "fetchRawDataPage ctx fetch sourceId tagSlug offset limit 0 3
           = (page_points b, [], 4)"
    using fetchRawDataPage_last
      [of ctx start end' fetch sourceId tagSlug offset limit 3 429 b 0] w r3 by simp
  have 2: "fetchRawDataPage ctx fetch sourceId tagSlug offset limit 1 2
           = (page_points b, [3000], 4)"
    using fetchRawDataPage_retry
      [of ctx start end' fetch sourceId tagSlug offset limit 2 b2 1] w r2 3
    by (simp add: numeral_3_eq_3)
  have 1: "fetchRawDataPage ctx fetch sourceId tagSlug offset limit 2 1
           = (page_points b, [2000, 3000], 4)"
    using fetchRawDataPage_retry
      [of ctx start end' fetch sourceId tagSlug offset limit 1 b1 2] w r1 2
    by (simp add: numeral_2_eq_2)
  show ?thesis
    using fetchRawDataPage_retry
      [of ctx start end' fetch sourceId tagSlug offset limit 0 b0 3] w r0 1 by simp
qed

text \<open>
  Claim C3, as the code has it. In a valid window, when the first four answers to a page
  request all have the status 429, \<^verbatim>\<open>_fetchRawDataPage\<close> with three retries sends
  exactly four requests, waits 1000, 2000 and 3000 milliseconds between them, and ends
  with what reading the fourth body gives: its points, or no points when it holds none,
  provided the body is a JSON value other than \<^verbatim>\<open>null\<close>. The function is total: no
  backend makes it loop.
\<close>

theorem fetchRawDataPage_rate_limited:
  assumes "toIXONISOString (timeRange_from ctx) = Inr start"
    and "toIXONISOString (timeRange_to ctx) = Inr end'"
    and "\<forall>k<3. \<exists>b'. fetch (page_request start end' sourceId tagSlug offset limit) k
                       = Response 429 b'"
    and "fetch (page_request start end' sourceId tagSlug offset limit) 3 = Response 429 b"
  shows "fetchRawDataPage ctx fetch sourceId tagSlug offset limit 3 0
           = (page_points b, [1000, 2000, 3000], 4)
         \<and> (b \<noteq> NotJson \<and> b \<noteq> JsonNull \<longrightarrow> (\<exists>points. page_points b = Inr points))"
proof -
  have "\<exists>b'. fetch (page_request start end' sourceId tagSlug offset limit) 0 = Response 429 b'"
    "\<exists>b'. fetch (page_request start end' sourceId tagSlug offset limit) 1 = Response 429 b'"
    "\<exists>b'. fetch (page_request start end' sourceId tagSlug offset limit) 2 = Response 429 b'"
    using assms(3) by simp_all
  then obtain b0 b1 b2 where
    r: "fetch (page_request start end' sourceId tagSlug offset limit) 0 = Response 429 b0"
       "fetch (page_request start end' sourceId tagSlug offset limit) 1 = Response 429 b1"
       "fetch (page_request start end' sourceId tagSlug offset limit) 2 = Response 429 b2"
    by blast
  have 0: "fetchRawDataPage ctx fetch sourceId tagSlug offset limit 3 0
           = (page_points b, [1000, 2000, 3000], 4)"
    using fetchRawDataPage_four_attempts
      [of ctx start end' fetch sourceId tagSlug offset limit b0 b1 b2 b] assms(1,2,4) r
    by simp
  have "\<exists>points. page_points b = Inr points" if "b \<noteq> NotJson" "b \<noteq> JsonNull"
    using that by (cases b) (auto simp: page_points_def split: option.splits)
  then show ?thesis using 0 by simp
qed

theorem fetchRawDataPage_rate_limited_witness:
  "fetchRawDataPage \<lparr>timeRange_from = 0, timeRange_to = 60000\<rparr>
      (always (Response 429 (Json None))) ''source'' (Some ''tag'') 0 5000 3 0
     = (Inr [], [1000, 2000, 3000], 4)"
  using fetchRawDataPage_rate_limited
    [of "\<lparr>timeRange_from = 0, timeRange_to = 60000\<rparr>" "''1970-01-01T00:00:00Z''"
        "''1970-01-01T00:01:00Z''" "always (Response 429 (Json None))"
        "''source''" "Some ''tag''" 0 5000 "Json None"]
  by (simp add: toIXONISOString_0 toIXONISOString_60000 page_points_def always_def)

text \<open>A rate-limit answer whose body is not JSON: the fourth read throws.\<close>

theorem fetchRawDataPage_rate_limited_raises:
  "fetchRawDataPage \<lparr>timeRange_from = 0, timeRange_to = 60000\<rparr>
      (always (Response 429 NotJson)) ''source'' (Some ''tag'') 0 5000 3 0
     = (Inl SyntaxError, [1000, 2000, 3000], 4)"
  using fetchRawDataPage_four_attempts
    [of "\<lparr>timeRange_from = 0, timeRange_to = 60000\<rparr>" "''1970-01-01T00:00:00Z''"
        "''1970-01-01T00:01:00Z''" "always (Response 429 NotJson)"
        "''source''" "Some ''tag''" 0 5000 NotJson NotJson NotJson NotJson]
  by (simp add: toIXONISOString_0 toIXONISOString_60000 page_points_def always_def)

section \<open>The strategies against a scripted backend\<close>

lemma scripted_count:
  assumes "toIXONISOString (timeRange_from ctx) = Inr start"
    and "toIXONISOString (timeRange_to ctx) = Inr end'"
  shows "getTotalCount ctx (scripted_backend cnt pages before) sourceId tagSlug
         = Inr (if cnt = NaN \<or> cnt = Fin 0 then Fin 0 else cnt)"
  by (simp add: getTotalCount_def assms await_def count_request_def scripted_backend_def
      read_count_def)

lemma scripted_before:
  assumes "toIXONISOString (timeRange_from ctx) = Inr start"
    and "tagSlugs \<noteq> []"
  shows "getLastPointOfPreviousPeriod ctx (scripted_backend cnt pages before) sourceId tagSlugs
         = Inr (case before of
                  None \<Rightarrow> None
                | Some p \<Rightarrow> Some \<lparr>m_time = start, m_values = m_values p\<rparr>)"
proof -
  obtain s ss where "tagSlugs = s # ss" using assms(2) by (cases tagSlugs) auto
  then show ?thesis
    by (simp add: getLastPointOfPreviousPeriod_def assms(1) toIXONISOString_0 await_def
        backfill_request_def scripted_backend_def data_points_def split: option.splits)
qed

lemma scripted_page:
  assumes "toIXONISOString (timeRange_from ctx) = Inr start"
    and "toIXONISOString (timeRange_to ctx) = Inr end'"
  shows "fetchRawDataPage ctx (scripted_backend cnt pages before) sourceId tagSlug
           offset limit retries attempt
         = (Inr (pages offset limit), [], Suc attempt)"
  by (subst fetchRawDataPage.simps)
     (simp add: assms page_request_def scripted_backend_def page_points_def)

lemma minute_from:
  "toIXONISOString (timeRange_from \<lparr>timeRange_from = 0, timeRange_to = 60000\<rparr>)
   = Inr ''1970-01-01T00:00:00Z''"
  by (simp add: toIXONISOString_0)

lemma minute_to:
  "toIXONISOString (timeRange_to \<lparr>timeRange_from = 0, timeRange_to = 60000\<rparr>)
   = Inr ''1970-01-01T00:01:00Z''"
  by (simp add: toIXONISOString_60000)

lemma Date_parse_10s: "Date_parse ''1970-01-01T00:00:10Z'' = Fin 10000"
  by code_simp

section \<open>The values handed to the caller\<close>

lemma all_results_Inr:
  "all_results (map f xs) = Inr ys \<Longrightarrow> list_all2 (\<lambda>x y. f x = Inr y) xs ys"
proof (induction xs arbitrary: ys)
  case Nil
  then show ?case by simp
next
  case (Cons x xs)
  then show ?case by (auto split: sum.splits)
qed

lemma jmul_finite_iff:
  "isFinite (jmul v f) \<longleftrightarrow> (\<exists>a b. v = Fin a \<and> f = Fin b \<and> \<bar>a * b\<bar> < 2 ^ 1024 - 2 ^ 970)"
proof (cases v; cases f)
  fix a b assume "v = Fin a" "f = Fin b"
  then show ?thesis using isFinite_to_double [of "a * b"] by simp
qed (auto simp: isFinite_def)

lemma jmul_NaN_iff:
  "v \<noteq> NaN \<Longrightarrow>
   jmul v f = NaN \<longleftrightarrow>
     f = NaN \<or> (\<not> isFinite v \<and> f = Fin 0) \<or> (v = Fin 0 \<and> (f = PInf \<or> f = NInf))"
  by (cases v; cases f) (auto simp: isFinite_def)

lemma toFixed_parseFloat_class:
  assumes "toFixed_parseFloat decimals y = Inr r"
  shows "isFinite r = isFinite y \<and> (r = NaN) = (y = NaN)"
proof (cases y)
  case (Fin a)
  show ?thesis
  proof (cases "10 ^ 21 \<le> \<bar>a\<bar>")
    case True
    then show ?thesis using assms Fin
      by (auto simp: toFixed_parseFloat_def split: if_splits)
  next
    case False
    define k where "k = nat decimals"
    define z where "z = sgn a * of_int \<lfloor>\<bar>a\<bar> * 10 ^ k + 1 / 2\<rfloor> / 10 ^ k"
    have r: "r = to_double z"
      using assms Fin False by (auto simp: toFixed_parseFloat_def z_def k_def split: if_splits)
    have p: "(0::real) < 10 ^ k" by simp
    have "0 \<le> \<bar>a\<bar> * 10 ^ k + 1 / 2" by simp
    then have f0: "0 \<le> \<lfloor>\<bar>a\<bar> * 10 ^ k + 1 / 2\<rfloor>" by (simp only: zero_le_floor)
    have "\<bar>z\<bar> = of_int \<lfloor>\<bar>a\<bar> * 10 ^ k + 1 / 2\<rfloor> / 10 ^ k * \<bar>sgn a\<bar>"
      unfolding z_def using f0 by (simp add: abs_mult)
    also have "\<dots> \<le> of_int \<lfloor>\<bar>a\<bar> * 10 ^ k + 1 / 2\<rfloor> / 10 ^ k"
      using f0 by (simp add: abs_sgn_eq mult_left_le)
    also have "\<dots> \<le> (\<bar>a\<bar> * 10 ^ k + 1 / 2) / 10 ^ k"
      using p by (intro divide_right_mono of_int_floor_le) simp
    also have "\<dots> = \<bar>a\<bar> + (1 / 2) / 10 ^ k" using p by (simp add: field_simps)
    also have "\<dots> \<le> \<bar>a\<bar> + 1 / 2"
    proof -
      have "(1::real) \<le> 10 ^ k" by simp
      then have "(1 / 2) / 10 ^ k \<le> (1 / 2 :: real)" by (simp add: field_simps)
      then show ?thesis by simp
    qed
    also have "\<dots> < 10 ^ 21 + 1 / 2" using False by simp
    also have "\<dots> < 2 ^ 1024 - 2 ^ 970" by simp
    finally have "isFinite (to_double z)" by (simp only: isFinite_to_double)
    then show ?thesis using r Fin by (auto simp: isFinite_def)
  qed
qed (use assms in \<open>auto simp: toFixed_parseFloat_def isFinite_def split: if_splits\<close>)

text \<open>
  Claim C8, as the code has it. \<^verbatim>\<open>getAllRawMetrics\<close> returns, in the order of the wire,
  one point for every wire point whose value for the tag is present and not \<^verbatim>\<open>NaN\<close>, and
  drops the others; the point carries the parsed time of the wire point where that time
  is written as the code itself writes times. An infinite wire value is not dropped. A
  returned value is finite exactly when the wire value and the factor are finite and
  their product stays below the overflow threshold of a double, and it is \<^verbatim>\<open>NaN\<close>
  exactly when the factor is \<^verbatim>\<open>NaN\<close> or the product is zero times infinity.
\<close>

theorem getAllRawMetrics_drops_NaN:
  assumes "getAllRawMetricsParallel ctx fetch sourceId [tagSlug] = Inr ms"
    and "getAllRawMetrics ctx fetch (Some (sourceId, tagSlug)) factor decimals = Inr (Some points)"
  shows "list_all2
           (\<lambda>x p. (parses x \<longrightarrow> p_time p = Date_parse (m_time x))
              \<and> (\<exists>v. map_of (m_values x) tagSlug = Some v \<and> v \<noteq> NaN
                   \<and> (isFinite (p_value p) \<longleftrightarrow>
                        (\<exists>a b. v = Fin a \<and> factor = Fin b \<and> \<bar>a * b\<bar> < 2 ^ 1024 - 2 ^ 970))
                   \<and> (p_value p = NaN \<longleftrightarrow>
                        factor = NaN \<or> (\<not> isFinite v \<and> factor = Fin 0)
                        \<or> (v = Fin 0 \<and> (factor = PInf \<or> factor = NInf)))))
           (filter (kept tagSlug) ms) points"
proof -
  let ?pairs = "filter (\<lambda>d. case snd d of None \<Rightarrow> False | Some v \<Rightarrow> \<not> isNaN v)
                 (map (\<lambda>x. (Date_parse (m_time x), map_of (m_values x) tagSlug)) ms)"
  let ?f = "\<lambda>d. await (toFixed_parseFloat decimals (jmul (the (snd d)) factor))
                   (\<lambda>r. Inr \<lparr>p_time = fst d, p_value = r\<rparr>)"
  let ?g = "\<lambda>x. (Date_parse (m_time x), map_of (m_values x) tagSlug)"
  have "all_results (map ?f ?pairs) = Inr points"
    using assms by (auto simp: getAllRawMetrics_def await_def split: sum.splits)
  then have rel: "list_all2 (\<lambda>d p. ?f d = Inr p) ?pairs points"
    by (rule all_results_Inr)
  have pairs: "?pairs = map ?g (filter (kept tagSlug) ms)"
    by (simp add: filter_map comp_def kept_def [abs_def])
  have rel': "list_all2 (\<lambda>x p. ?f (?g x) = Inr p) (filter (kept tagSlug) ms) points"
    using rel unfolding pairs by (simp add: list_all2_map1)
  show ?thesis
  proof (rule list.rel_mono_strong [OF rel'])
    fix x p
    assume x: "x \<in> set (filter (kept tagSlug) ms)" and "p \<in> set points"
      and fp: "?f (?g x) = Inr p"
    from x obtain v where v: "map_of (m_values x) tagSlug = Some v" "v \<noteq> NaN"
      by (auto simp: kept_def isNaN_def split: option.splits)
    from fp v obtain r where r: "toFixed_parseFloat decimals (jmul v factor) = Inr r"
      and p: "p = \<lparr>p_time = Date_parse (m_time x), p_value = r\<rparr>"
      by (auto simp: await_def split: sum.splits)
    have cl: "isFinite r = isFinite (jmul v factor)" "(r = NaN) = (jmul v factor = NaN)"
      using toFixed_parseFloat_class [OF r] by simp_all
    show "(parses x \<longrightarrow> p_time p = Date_parse (m_time x))
              \<and> (\<exists>v. map_of (m_values x) tagSlug = Some v \<and> v \<noteq> NaN
                   \<and> (isFinite (p_value p) \<longleftrightarrow>
                        (\<exists>a b. v = Fin a \<and> factor = Fin b \<and> \<bar>a * b\<bar> < 2 ^ 1024 - 2 ^ 970))
                   \<and> (p_value p = NaN \<longleftrightarrow>
                        factor = NaN \<or> (\<not> isFinite v \<and> factor = Fin 0)
                        \<or> (v = Fin 0 \<and> (factor = PInf \<or> factor = NInf))))"
      using v cl unfolding p jmul_finite_iff jmul_NaN_iff [OF v(2)] by simp
  qed
qed

theorem getAllRawMetrics_drops_NaN_witness:
  "getAllRawMetrics \<lparr>timeRange_from = 0, timeRange_to = 60000\<rparr>
     (scripted_backend (Fin 3)
        (first_then
           [\<lparr>m_time = ''1970-01-01T00:00:10Z'', m_values = [(''tag'', Fin (1279 / 1024))]\<rparr>,
            \<lparr>m_time = ''1970-01-01T00:00:10Z'', m_values = [(''tag'', NaN)]\<rparr>,
            \<lparr>m_time = ''1970-01-01T00:00:10Z'', m_values = [(''other'', Fin 1)]\<rparr>] [])
        None)
     (Some (''source'', ''tag'')) (Fin 2) 2
   = Inr (Some [\<lparr>p_time = Fin 10000, p_value = Fin (5 / 2)\<rparr>])
   \<and> filter (kept ''tag'')
        [\<lparr>m_time = ''1970-01-01T00:00:10Z'', m_values = [(''tag'', Fin (1279 / 1024))]\<rparr>,
         \<lparr>m_time = ''1970-01-01T00:00:10Z'', m_values = [(''tag'', NaN)]\<rparr>,
         \<lparr>m_time = ''1970-01-01T00:00:10Z'', m_values = [(''other'', Fin 1)]\<rparr>]
      = [\<lparr>m_time = ''1970-01-01T00:00:10Z'', m_values = [(''tag'', Fin (1279 / 1024))]\<rparr>]
   \<and> parses \<lparr>m_time = ''1970-01-01T00:00:10Z'', m_values = [(''tag'', Fin (1279 / 1024))]\<rparr>
   \<and> Date_parse ''1970-01-01T00:00:10Z'' = Fin 10000
   \<and> isFinite (Fin (5 / 2))
   \<and> \<bar>1279 / 1024 * 2\<bar> < (2 ^ 1024 - 2 ^ 970 :: real)"
proof -
  let ?ms = "[\<lparr>m_time = ''1970-01-01T00:00:10Z'', m_values = [(''tag'', Fin (1279 / 1024))]\<rparr>,
            \<lparr>m_time = ''1970-01-01T00:00:10Z'', m_values = [(''tag'', NaN)]\<rparr>,
            \<lparr>m_time = ''1970-01-01T00:00:10Z'', m_values = [(''other'', Fin 1)]\<rparr>]"
  let ?B = "scripted_backend (Fin 3) (first_then ?ms []) None"
  let ?W = "\<lparr>timeRange_from = 0, timeRange_to = 60000\<rparr>"
  have p: "getAllRawMetricsParallel ?W ?B ''source'' [''tag''] = Inr ?ms"
    by (simp add: getAllRawMetricsParallel_def await_def first_slug_def
        scripted_count [OF minute_from minute_to]
        scripted_page [OF minute_from minute_to] first_then_def
        scripted_before [OF minute_from])
  have g: "getAllRawMetrics ?W ?B (Some (''source'', ''tag'')) (Fin 2) 2
           = Inr (Some [\<lparr>p_time = Fin 10000, p_value = Fin (5 / 2)\<rparr>])"
    by (simp add: getAllRawMetrics_def p await_def isNaN_def Date_parse_10s
        toFixed_parseFloat_def to_double_1279_512 to_double_5_2)
  show ?thesis
    using getAllRawMetrics_drops_NaN [OF p g] g
    by (simp add: kept_def isNaN_def isFinite_def parses_def Date_parse_10s)
qed

text \<open>A wire value of \<^verbatim>\<open>Infinity\<close> (the JSON number \<^verbatim>\<open>1e999\<close>) reaches the caller.\<close>

theorem getAllRawMetrics_keeps_infinity:
  "getAllRawMetrics \<lparr>timeRange_from = 0, timeRange_to = 60000\<rparr>
     (scripted_backend (Fin 1)
        (first_then
           [\<lparr>m_time = ''1970-01-01T00:00:10Z'', m_values = [(''tag'', PInf)]\<rparr>] [])
        None)
     (Some (''source'', ''tag'')) (Fin 1) 2
   = Inr (Some [\<lparr>p_time = Fin 10000, p_value = PInf\<rparr>])"
  by (simp add: getAllRawMetrics_def getAllRawMetricsParallel_def await_def isNaN_def
      first_slug_def scripted_count [OF minute_from minute_to]
      scripted_page [OF minute_from minute_to] first_then_def
      scripted_before [OF minute_from]
      Date_parse_10s toFixed_parseFloat_def)

text \<open>
  A product that overflows: \<^verbatim>\<open>1e308 * 10\<close> is returned as \<^verbatim>\<open>Infinity\<close>. A decimal that
  is no double: \<^verbatim>\<open>1.005\<close> is the double just below it, and \<^verbatim>\<open>toFixed(2)\<close> prints
  \<^verbatim>\<open>1.00\<close>.
\<close>

lemma getAllRawMetrics_rounds:
  "getAllRawMetrics \<lparr>timeRange_from = 0, timeRange_to = 60000\<rparr>
     (scripted_backend (Fin 1)
        (first_then
           [\<lparr>m_time = ''1970-01-01T00:00:10Z'', m_values = [(''tag'', Fin (10 ^ 308))]\<rparr>] [])
        None)
     (Some (''source'', ''tag'')) (Fin 10) 2
   = Inr (Some [\<lparr>p_time = Fin 10000, p_value = PInf\<rparr>])
   \<and> getAllRawMetrics \<lparr>timeRange_from = 0, timeRange_to = 60000\<rparr>
     (scripted_backend (Fin 1)
        (first_then
           [\<lparr>m_time = ''1970-01-01T00:00:10Z'', m_values = [(''tag'', Fin (201 / 200))]\<rparr>] [])
        None)
     (Some (''source'', ''tag'')) (Fin 1) 2
   = Inr (Some [\<lparr>p_time = Fin 10000, p_value = Fin 1\<rparr>])"
proof -
  have ov: "to_double (10 ^ 308 * 10) = PInf"
    by (rule to_double_large) simp
  show ?thesis
    by (simp add: getAllRawMetrics_def getAllRawMetricsParallel_def await_def isNaN_def
      first_slug_def scripted_count [OF minute_from minute_to]
      scripted_page [OF minute_from minute_to] first_then_def
      scripted_before [OF minute_from]
      Date_parse_10s toFixed_parseFloat_def ov [simplified] to_double_201_200 to_double_1)
qed

section \<open>The order of the merged points\<close>

lemma mset_sort_insert: "mset (sort_insert c x xs) = add_mset x (mset xs)"
  by (induction xs) simp_all

lemma mset_Array_sort: "mset (Array_sort c xs) = mset xs"
  unfolding Array_sort_def by (induction xs) (simp_all add: mset_sort_insert)

lemma set_sort_insert: "set (sort_insert c x xs) = insert x (set xs)"
  using mset_sort_insert [of c x xs] by (metis set_mset_add_mset_insert set_mset_mset)

lemma by_time_greater:
  "parses a \<Longrightarrow> parses b \<Longrightarrow> jgt (by_time a b) (Fin 0) \<longleftrightarrow> parsed_time b < parsed_time a"
  by (auto simp: parses_def isFinite_def by_time_def parsed_time_def jgt_def jsub_def
      split: jsnum.splits)

lemma sorted_sort_insert:
  assumes "parses x" and "\<forall>y\<in>set xs. parses y" and "sorted (map parsed_time xs)"
  shows "sorted (map parsed_time (sort_insert by_time x xs))"
  using assms
proof (induction xs)
  case Nil
  then show ?case by simp
next
  case (Cons y ys)
  show ?case
  proof (cases "jgt (by_time x y) (Fin 0)")
    case True
    then have lt: "parsed_time y < parsed_time x"
      using by_time_greater [of x y] Cons.prems by simp
    have "sorted (map parsed_time (sort_insert by_time x ys))"
      using Cons by simp
    moreover have "\<forall>z\<in>set (sort_insert by_time x ys). parsed_time y \<le> parsed_time z"
      using Cons.prems(3) lt by (auto simp: set_sort_insert)
    ultimately show ?thesis using True by simp
  next
    case False
    then have "parsed_time x \<le> parsed_time y"
      using by_time_greater [of x y] Cons.prems by simp
    then show ?thesis using False Cons.prems(3) by auto
  qed
qed

lemma sorted_Array_sort:
  "\<forall>y\<in>set xs. parses y \<Longrightarrow> sorted (map parsed_time (Array_sort by_time xs))"
proof (induction xs)
  case Nil
  then show ?case by (simp add: Array_sort_def)
next
  case (Cons x xs)
  have "set (Array_sort by_time xs) = set xs"
    using mset_Array_sort [of by_time xs] by (metis set_mset_mset)
  then show ?case
    using Cons sorted_sort_insert [of x "Array_sort by_time xs"]
    by (simp add: Array_sort_def)
qed

text \<open>
  Claim C1, as the code has it. When the count is above the page limit of 5000, the
  sequence \<^verbatim>\<open>_getAllRawMetricsParallel\<close> returns is sorted by parsed time, in
  non-decreasing order, provided every timestamp in it parses. The sort is stable and
  removes nothing, so equal timestamps stay.
\<close>

theorem getAllRawMetricsParallel_sorted:
  assumes "getTotalCount ctx fetch sourceId (first_slug tagSlugs) = Inr totalCount"
    and "jlt (Fin 5000) totalCount"
    and "getAllRawMetricsParallel ctx fetch sourceId tagSlugs = Inr ms"
    and "\<forall>m\<in>set ms. parses m"
  shows "sorted (map parsed_time ms)"
proof -
  have c: "totalCount \<noteq> Fin 0" "\<not> jle totalCount (Fin 5000)"
    using assms(2) by (cases totalCount; simp)+
  obtain xs where ms: "ms = Array_sort by_time xs"
    using assms(1,3) c
    by (auto simp: getAllRawMetricsParallel_def await_def Let_def
        split: sum.splits jsnum.splits if_splits)
  have "set xs = set ms"
    unfolding ms using mset_Array_sort [of by_time xs] by (metis set_mset_mset)
  then have "\<forall>y\<in>set xs. parses y" using assms(4) by simp
  then show ?thesis
    unfolding ms by (rule sorted_Array_sort)
qed

lemma scripted_sequential_page:
  assumes "tagSlugs \<noteq> []"
  shows "data_points (scripted_backend cnt pages before
                        (sequential_request start end' sourceId tagSlugs offset) 0)
         = Inr (pages offset 5000)"
proof -
  obtain s ss where "tagSlugs = s # ss" using assms by (cases tagSlugs) auto
  then show ?thesis
    by (simp add: sequential_request_def scripted_backend_def data_points_def)
qed

lemma all_results_map_Inr: "all_results (map (\<lambda>i. Inr (f i)) xs) = Inr (map f xs)"
  by (induction xs) simp_all

lemma scripted_pages:
  assumes "toIXONISOString (timeRange_from ctx) = Inr start"
    and "toIXONISOString (timeRange_to ctx) = Inr end'"
  shows "all_results (map (\<lambda>i. fst (fetchRawDataPage ctx (scripted_backend cnt pages before)
                                      sourceId tagSlug (i * 5000) 5000 3 0)) is)
         = Inr (map (\<lambda>i. pages (i * 5000) 5000) is)"
  by (simp add: scripted_page [OF assms] all_results_map_Inr)

lemma Date_parse_0s: "Date_parse ''1970-01-01T00:00:00Z'' = Fin 0"
  by code_simp

lemma Date_parse_20s: "Date_parse ''1970-01-01T00:00:20Z'' = Fin 20000"
  by code_simp

lemma Date_parse_30s: "Date_parse ''1970-01-01T00:00:30Z'' = Fin 30000"
  by code_simp

lemma two_pages: "[0..<2] = [0, 1]"
  by code_simp

theorem getAllRawMetricsParallel_sorted_witness:
  "getAllRawMetricsParallel \<lparr>timeRange_from = 0, timeRange_to = 60000\<rparr>
     (scripted_backend (Fin 5001)
        (first_then
           [\<lparr>m_time = ''1970-01-01T00:00:30Z'', m_values = [(''tag'', Fin 3)]\<rparr>,
                 \<lparr>m_time = ''1970-01-01T00:00:10Z'', m_values = [(''tag'', Fin 1)]\<rparr>]
           [\<lparr>m_time = ''1970-01-01T00:00:20Z'', m_values = [(''tag'', Fin 2)]\<rparr>])
        (Some \<lparr>m_time = ''1969-12-31T00:00:00Z'', m_values = [(''tag'', Fin 0)]\<rparr>))
     ''source'' [''tag'']
   = Inr [\<lparr>m_time = ''1970-01-01T00:00:00Z'', m_values = [(''tag'', Fin 0)]\<rparr>,
          \<lparr>m_time = ''1970-01-01T00:00:10Z'', m_values = [(''tag'', Fin 1)]\<rparr>,
          \<lparr>m_time = ''1970-01-01T00:00:20Z'', m_values = [(''tag'', Fin 2)]\<rparr>,
          \<lparr>m_time = ''1970-01-01T00:00:30Z'', m_values = [(''tag'', Fin 3)]\<rparr>]
   \<and> sorted (map parsed_time
        [\<lparr>m_time = ''1970-01-01T00:00:00Z'', m_values = [(''tag'', Fin 0)]\<rparr>,
         \<lparr>m_time = ''1970-01-01T00:00:10Z'', m_values = [(''tag'', Fin 1)]\<rparr>,
         \<lparr>m_time = ''1970-01-01T00:00:20Z'', m_values = [(''tag'', Fin 2)]\<rparr>,
         \<lparr>m_time = ''1970-01-01T00:00:30Z'', m_values = [(''tag'', Fin 3)]\<rparr>])"
proof -
  let ?W = "\<lparr>timeRange_from = 0, timeRange_to = 60000\<rparr>"
  let ?B = "scripted_backend (Fin 5001)
        (first_then
           [\<lparr>m_time = ''1970-01-01T00:00:30Z'', m_values = [(''tag'', Fin 3)]\<rparr>,
                 \<lparr>m_time = ''1970-01-01T00:00:10Z'', m_values = [(''tag'', Fin 1)]\<rparr>]
           [\<lparr>m_time = ''1970-01-01T00:00:20Z'', m_values = [(''tag'', Fin 2)]\<rparr>])
        (Some \<lparr>m_time = ''1969-12-31T00:00:00Z'', m_values = [(''tag'', Fin 0)]\<rparr>)"
  let ?ms = "[\<lparr>m_time = ''1970-01-01T00:00:00Z'', m_values = [(''tag'', Fin 0)]\<rparr>,
          \<lparr>m_time = ''1970-01-01T00:00:10Z'', m_values = [(''tag'', Fin 1)]\<rparr>,
          \<lparr>m_time = ''1970-01-01T00:00:20Z'', m_values = [(''tag'', Fin 2)]\<rparr>,
          \<lparr>m_time = ''1970-01-01T00:00:30Z'', m_values = [(''tag'', Fin 3)]\<rparr>]"
  have c: "getTotalCount ?W ?B ''source'' (first_slug [''tag'']) = Inr (Fin 5001)"
    by (simp add: scripted_count [OF minute_from minute_to])
  have p: "getAllRawMetricsParallel ?W ?B ''source'' [''tag''] = Inr ?ms"
    by (simp add: getAllRawMetricsParallel_def c await_def two_pages Let_def
        scripted_page [OF minute_from minute_to] first_then_def
        scripted_before [OF minute_from]
        Array_sort_def by_time_def jgt_def jsub_def
        Date_parse_0s Date_parse_10s Date_parse_20s Date_parse_30s)
  have "\<forall>m\<in>set ?ms. parses m"
    by (simp add: parses_def isFinite_def
        Date_parse_0s Date_parse_10s Date_parse_20s Date_parse_30s)
  then show ?thesis
    using getAllRawMetricsParallel_sorted [OF c _ p] p by simp
qed

section \<open>The two strategies on a synthetic backend\<close>

lemma sequential_finish:
  assumes "toIXONISOString (timeRange_from ctx) = Inr start"
    and "tagSlugs \<noteq> []"
  shows "getAllRawMetricsSequential ctx (scripted_backend cnt pages before) sourceId tagSlugs
           False offset acc
         = Some (Inr (acc @ backfill start before))"
  by (subst getAllRawMetricsSequential.simps)
     (simp add: scripted_before [OF assms] await_def backfill_def split: option.splits)

lemma sequential_step:
  assumes "toIXONISOString (timeRange_from ctx) = Inr start"
    and "toIXONISOString (timeRange_to ctx) = Inr end'"
    and "tagSlugs \<noteq> []"
  shows "getAllRawMetricsSequential ctx (scripted_backend cnt pages before) sourceId tagSlugs
           True offset acc
         = getAllRawMetricsSequential ctx (scripted_backend cnt pages before) sourceId tagSlugs
             (length (pages offset 5000) = 5000) (offset + 5000) (acc @ pages offset 5000)"
  by (subst getAllRawMetricsSequential.simps)
     (simp add: assms(1,2) scripted_sequential_page [OF assms(3)])

lemma sequential_synthetic:
  assumes "toIXONISOString (timeRange_from ctx) = Inr start"
    and "toIXONISOString (timeRange_to ctx) = Inr end'"
    and "tagSlugs \<noteq> []"
  shows "getAllRawMetricsSequential ctx (synthetic_backend pts before) sourceId tagSlugs
           True offset acc
         = Some (Inr (acc @ drop offset pts @ backfill start before))"
proof (induction "length pts - offset" arbitrary: offset acc rule: less_induct)
  case less
  let ?page = "take 5000 (drop offset pts)"
  have step: "getAllRawMetricsSequential ctx (synthetic_backend pts before) sourceId tagSlugs
                True offset acc
              = getAllRawMetricsSequential ctx (synthetic_backend pts before) sourceId tagSlugs
                  (length ?page = 5000) (offset + 5000) (acc @ ?page)"
    unfolding synthetic_backend_def by (rule sequential_step [OF assms])
  show ?case
  proof (cases "length ?page = 5000")
    case True
    then have "length pts - (offset + 5000) < length pts - offset" by simp
    then have "getAllRawMetricsSequential ctx (synthetic_backend pts before) sourceId tagSlugs
                 True (offset + 5000) (acc @ ?page)
               = Some (Inr ((acc @ ?page) @ drop (offset + 5000) pts @ backfill start before))"
      by (rule less.hyps)
    moreover have "?page @ drop (offset + 5000) pts = drop offset pts"
      by (metis add.commute append_take_drop_id drop_drop)
    ultimately show ?thesis using step True by simp
  next
    case False
    then have "?page = drop offset pts" by simp
    moreover have "getAllRawMetricsSequential ctx (synthetic_backend pts before) sourceId
                     tagSlugs False (offset + 5000) (acc @ ?page)
                   = Some (Inr ((acc @ ?page) @ backfill start before))"
      unfolding synthetic_backend_def by (rule sequential_finish [OF assms(1,3)])
    ultimately show ?thesis using step False by simp
  qed
qed

lemma concat_pages:
  "concat (map (\<lambda>i. take k (drop (i * k) xs)) [0..<n]) = take (n * k) xs"
proof (induction n)
  case 0
  show ?case by simp
next
  case (Suc n)
  have "take (n * k + k) xs = take (n * k) xs @ take k (drop (n * k) xs)"
    by (rule take_add)
  then show ?case using Suc by (simp add: add.commute)
qed

lemma pages_cover:
  fixes n :: nat
  shows "n \<le> nat \<lceil>real n / 5000\<rceil> * 5000"
proof -
  define k where "k = nat \<lceil>real n / 5000\<rceil>"
  have "real n / 5000 \<le> real_of_int \<lceil>real n / 5000\<rceil>" by (rule le_of_int_ceiling)
  moreover have "real_of_int \<lceil>real n / 5000\<rceil> = real k"
    unfolding k_def by simp
  ultimately have "real n / 5000 \<le> real k" by simp
  then have "real n \<le> real k * 5000" by (simp add: field_simps)
  then have "real n \<le> real (k * 5000)" by simp
  then have "n \<le> k * 5000" by (simp only: of_nat_le_iff)
  then show ?thesis unfolding k_def .
qed

lemma pages_fit:
  fixes n :: nat
  assumes "n \<le> 4294967295"
  shows "nat \<lceil>real n / 5000\<rceil> \<le> 4294967295"
proof -
  have "real n / 5000 \<le> real n" by simp
  also have "\<dots> \<le> 4294967295" using assms by simp
  finally have "\<lceil>real n / 5000\<rceil> \<le> 4294967295" by (simp add: ceiling_le_iff)
  then show ?thesis by simp
qed

lemma parallel_synthetic:
  assumes "toIXONISOString (timeRange_from ctx) = Inr start"
    and "toIXONISOString (timeRange_to ctx) = Inr end'"
    and "tagSlugs \<noteq> []"
    and "length pts \<le> 4294967295"
  shows "\<exists>par. getAllRawMetricsParallel ctx (synthetic_backend pts before) sourceId tagSlugs
               = Inr par
             \<and> mset par = mset (pts @ backfill start before)"
proof -
  let ?B = "synthetic_backend pts before"
  have c: "getTotalCount ctx ?B sourceId (first_slug tagSlugs) = Inr (Fin (real (length pts)))"
    unfolding synthetic_backend_def by (simp add: scripted_count [OF assms(1,2)])
  define lp where "lp = (case before of None \<Rightarrow> None
                         | Some p \<Rightarrow> Some \<lparr>m_time = start, m_values = m_values p\<rparr>)"
  have b: "getLastPointOfPreviousPeriod ctx ?B sourceId tagSlugs = Inr lp"
    unfolding synthetic_backend_def lp_def by (rule scripted_before [OF assms(1,3)])
  have lp: "(case lp of Some p \<Rightarrow> xs @ [p] | None \<Rightarrow> xs) = xs @ backfill start before" for xs
    by (cases before) (simp_all add: lp_def backfill_def)
  have lp0: "(case lp of Some p \<Rightarrow> [p] | None \<Rightarrow> []) = backfill start before"
    by (cases before) (simp_all add: lp_def backfill_def)
  have pg: "fst (fetchRawDataPage ctx ?B sourceId tagSlug offset 5000 3 0)
            = Inr (take 5000 (drop offset pts))" for tagSlug offset
    unfolding synthetic_backend_def by (simp add: scripted_page [OF assms(1,2)])
  consider "length pts = 0" | "0 < length pts" "length pts \<le> 5000" | "5000 < length pts"
    by linarith
  then show ?thesis
  proof cases
    case 1
    have "getAllRawMetricsParallel ctx ?B sourceId tagSlugs = Inr (backfill start before)"
      by (simp add: getAllRawMetricsParallel_def c b await_def lp0 Let_def 1)
    moreover have "pts = []" using 1 by simp
    ultimately show ?thesis by simp
  next
    case 2
    have ne: "pts \<noteq> []" using 2 by auto
    have "getAllRawMetricsParallel ctx ?B sourceId tagSlugs
          = Inr (pts @ backfill start before)"
      by (simp add: getAllRawMetricsParallel_def c b pg await_def lp Let_def 2 ne)
    then show ?thesis by simp
  next
    case 3
    define k where "k = nat \<lceil>real (length pts) / 5000\<rceil>"
    have ne: "pts \<noteq> []" and big: "\<not> length pts \<le> 5000" using 3 by auto
    have fit: "\<not> 4294967295 < k"
      unfolding k_def not_less by (rule pages_fit [OF assms(4)])
    have "length pts \<le> k * 5000" unfolding k_def by (rule pages_cover)
    then have cover: "concat (map (\<lambda>i. take 5000 (drop (i * 5000) pts)) [0..<k]) = pts"
      by (simp add: concat_pages)
    have res: "all_results (map (\<lambda>i. fst (fetchRawDataPage ctx ?B sourceId
                                   (first_slug tagSlugs) (i * 5000) 5000 3 0)) [0..<k])
               = Inr (map (\<lambda>i. take 5000 (drop (i * 5000) pts)) [0..<k])"
      by (simp add: pg all_results_map_Inr)
    have "getAllRawMetricsParallel ctx ?B sourceId tagSlugs
          = Inr (Array_sort by_time (pts @ backfill start before))"
      by (simp add: getAllRawMetricsParallel_def c b res cover await_def lp Let_def
          k_def [symmetric] big ne fit)
    then show ?thesis by (simp add: mset_Array_sort)
  qed
qed

text \<open>
  Claim C6. In a window whose bounds are valid dates, for every synthetic backend (any
  point list no longer than a JavaScript array can be, any point before the window) and
  at least one tag, the sequential strategy returns, the count-prefetch strategy
  returns, and the two sequences hold the same points the same number of times.
\<close>

theorem strategies_agree:
  assumes "toIXONISOString (timeRange_from ctx) = Inr start"
    and "toIXONISOString (timeRange_to ctx) = Inr end'"
    and "tagSlugs \<noteq> []"
    and "length pts \<le> 4294967295"
  shows "\<exists>seq par.
           getAllRawMetricsSequential ctx (synthetic_backend pts before) sourceId tagSlugs
             True 0 [] = Some (Inr seq)
           \<and> getAllRawMetricsParallel ctx (synthetic_backend pts before) sourceId tagSlugs
               = Inr par
           \<and> mset par = mset seq"
  using sequential_synthetic [OF assms(1-3), of pts before sourceId 0 "[]"]
    parallel_synthetic [OF assms, of before sourceId]
  by auto

theorem strategies_agree_witness:
  "\<exists>seq par.
     getAllRawMetricsSequential \<lparr>timeRange_from = 0, timeRange_to = 60000\<rparr>
       (synthetic_backend
          [\<lparr>m_time = ''1970-01-01T00:00:10Z'', m_values = [(''tag'', Fin 1)]\<rparr>,
           \<lparr>m_time = ''1970-01-01T00:00:20Z'', m_values = [(''tag'', Fin 2)]\<rparr>]
          (Some \<lparr>m_time = ''1969-12-31T23:59:00Z'', m_values = [(''tag'', Fin 7)]\<rparr>))
       ''source'' [''tag''] True 0 [] = Some (Inr seq)
     \<and> getAllRawMetricsParallel \<lparr>timeRange_from = 0, timeRange_to = 60000\<rparr>
       (synthetic_backend
          [\<lparr>m_time = ''1970-01-01T00:00:10Z'', m_values = [(''tag'', Fin 1)]\<rparr>,
           \<lparr>m_time = ''1970-01-01T00:00:20Z'', m_values = [(''tag'', Fin 2)]\<rparr>]
          (Some \<lparr>m_time = ''1969-12-31T23:59:00Z'', m_values = [(''tag'', Fin 7)]\<rparr>))
       ''source'' [''tag''] = Inr par
     \<and> mset par = mset seq"
  using strategies_agree
    [OF minute_from minute_to, of "[''tag'']"
        "[\<lparr>m_time = ''1970-01-01T00:00:10Z'', m_values = [(''tag'', Fin 1)]\<rparr>,
          \<lparr>m_time = ''1970-01-01T00:00:20Z'', m_values = [(''tag'', Fin 2)]\<rparr>]"
        "Some \<lparr>m_time = ''1969-12-31T23:59:00Z'', m_values = [(''tag'', Fin 7)]\<rparr>" "''source''"]
  by simp

text \<open>
  With one point in the window and a point before it, both strategies return the point
  before the window last, behind a later time. With a count above 5000 the
  count-prefetch strategy returns two points of the same time.
\<close>

theorem strategies_not_strictly_ascending:
  "getAllRawMetricsSequential \<lparr>timeRange_from = 0, timeRange_to = 60000\<rparr>
     (synthetic_backend [\<lparr>m_time = ''1970-01-01T00:00:10Z'', m_values = [(''tag'', Fin 1)]\<rparr>]
        (Some \<lparr>m_time = ''1969-12-31T23:59:00Z'', m_values = [(''tag'', Fin 7)]\<rparr>))
     ''source'' [''tag''] True 0 []
   = Some (Inr [\<lparr>m_time = ''1970-01-01T00:00:10Z'', m_values = [(''tag'', Fin 1)]\<rparr>,
                \<lparr>m_time = ''1970-01-01T00:00:00Z'', m_values = [(''tag'', Fin 7)]\<rparr>])
   \<and> getAllRawMetricsParallel \<lparr>timeRange_from = 0, timeRange_to = 60000\<rparr>
     (synthetic_backend [\<lparr>m_time = ''1970-01-01T00:00:10Z'', m_values = [(''tag'', Fin 1)]\<rparr>]
        (Some \<lparr>m_time = ''1969-12-31T23:59:00Z'', m_values = [(''tag'', Fin 7)]\<rparr>))
     ''source'' [''tag'']
   = Inr [\<lparr>m_time = ''1970-01-01T00:00:10Z'', m_values = [(''tag'', Fin 1)]\<rparr>,
          \<lparr>m_time = ''1970-01-01T00:00:00Z'', m_values = [(''tag'', Fin 7)]\<rparr>]
   \<and> Date_parse ''1970-01-01T00:00:10Z'' = Fin 10000
   \<and> Date_parse ''1970-01-01T00:00:00Z'' = Fin 0
   \<and> getAllRawMetricsParallel \<lparr>timeRange_from = 0, timeRange_to = 60000\<rparr>
     (scripted_backend (Fin 5001)
        (first_then
           [\<lparr>m_time = ''1970-01-01T00:00:10Z'', m_values = [(''tag'', Fin 1)]\<rparr>,
                 \<lparr>m_time = ''1970-01-01T00:00:10Z'', m_values = [(''tag'', Fin 2)]\<rparr>]
           [])
        None)
     ''source'' [''tag'']
   = Inr [\<lparr>m_time = ''1970-01-01T00:00:10Z'', m_values = [(''tag'', Fin 1)]\<rparr>,
          \<lparr>m_time = ''1970-01-01T00:00:10Z'', m_values = [(''tag'', Fin 2)]\<rparr>]"
proof -
  let ?W = "\<lparr>timeRange_from = 0, timeRange_to = 60000\<rparr>"
  let ?p = "\<lparr>m_time = ''1970-01-01T00:00:10Z'', m_values = [(''tag'', Fin 1)]\<rparr>"
  let ?q = "\<lparr>m_time = ''1969-12-31T23:59:00Z'', m_values = [(''tag'', Fin 7)]\<rparr>"
  let ?b = "\<lparr>m_time = ''1970-01-01T00:00:00Z'', m_values = [(''tag'', Fin 7)]\<rparr>"
  have s: "getAllRawMetricsSequential ?W (synthetic_backend [?p] (Some ?q)) ''source''
             [''tag''] True 0 [] = Some (Inr [?p, ?b])"
    using sequential_synthetic
      [OF minute_from minute_to, of "[''tag'']" "[?p]" "Some ?q" "''source''" 0 "[]"]
    by (simp add: backfill_def)
  have p: "getAllRawMetricsParallel ?W (synthetic_backend [?p] (Some ?q)) ''source'' [''tag'']
           = Inr [?p, ?b]"
    by (simp add: getAllRawMetricsParallel_def synthetic_backend_def await_def Let_def
        scripted_count [OF minute_from minute_to]
        scripted_page [OF minute_from minute_to] first_then_def
        scripted_before [OF minute_from])
  have d: "getAllRawMetricsParallel ?W
     (scripted_backend (Fin 5001)
        (first_then
           [\<lparr>m_time = ''1970-01-01T00:00:10Z'', m_values = [(''tag'', Fin 1)]\<rparr>,
                 \<lparr>m_time = ''1970-01-01T00:00:10Z'', m_values = [(''tag'', Fin 2)]\<rparr>]
           [])
        None)
     ''source'' [''tag'']
   = Inr [\<lparr>m_time = ''1970-01-01T00:00:10Z'', m_values = [(''tag'', Fin 1)]\<rparr>,
          \<lparr>m_time = ''1970-01-01T00:00:10Z'', m_values = [(''tag'', Fin 2)]\<rparr>]"
    by (simp add: getAllRawMetricsParallel_def await_def two_pages Let_def
        scripted_count [OF minute_from minute_to]
        scripted_page [OF minute_from minute_to] first_then_def
        scripted_before [OF minute_from]
        Array_sort_def by_time_def jgt_def jsub_def Date_parse_10s)
  show ?thesis
    using s p d by (simp add: Date_parse_10s Date_parse_0s)
qed

section \<open>The point before the window\<close>

lemma page_points_served:
  assumes "page_query req" and "fetch req attempt = Response status b"
    and "page_points b = Inr ps"
  shows "set ps \<subseteq> served_points fetch"
proof (cases b)
  case (Json d)
  show ?thesis
  proof (cases d)
    case None
    then show ?thesis using assms(3) Json by (simp add: page_points_def)
  next
    case (Some d')
    show ?thesis
    proof (cases d')
      case None
      then show ?thesis using assms(3) Json Some by (simp add: page_points_def)
    next
      case (Some qs)
      then have "qs = ps" using assms(3) Json \<open>d = Some d'\<close> by (simp add: page_points_def)
      then show ?thesis
        using assms(1,2) Json \<open>d = Some d'\<close> Some by (auto simp: served_points_def)
    qed
  qed
qed (use assms(3) in \<open>simp_all add: page_points_def\<close>)

lemma page_request_page_query: "page_query (page_request start end' sourceId tagSlug offset limit)"
  by (simp add: page_query_def page_request_def)

lemma sequential_request_page_query:
  "page_query (sequential_request start end' sourceId tagSlugs offset)"
  by (auto simp: page_query_def sequential_request_def)

lemma fetchRawDataPage_served:
  "fst (fetchRawDataPage ctx fetch sourceId tagSlug offset limit retries attempt) = Inr ps
   \<Longrightarrow> set ps \<subseteq> served_points fetch"
proof (induction ctx fetch sourceId tagSlug offset limit retries attempt
       rule: fetchRawDataPage.induct)
  case (1 ctx fetch sourceId tagSlug offset limit retries attempt)
  show ?case
  proof (cases "toIXONISOString (timeRange_from ctx)")
    case (Inl e)
    then show ?thesis using "1.prems" by (subst (asm) fetchRawDataPage.simps) simp
  next
    case start: (Inr start)
    show ?thesis
    proof (cases "toIXONISOString (timeRange_to ctx)")
      case (Inl e)
      then show ?thesis using "1.prems" start by (subst (asm) fetchRawDataPage.simps) simp
    next
      case end': (Inr end')
      let ?req = "page_request start end' sourceId tagSlug offset limit"
      show ?thesis
      proof (cases "fetch ?req attempt")
        case Rejected
        then show ?thesis
          using "1.prems" start end' by (subst (asm) fetchRawDataPage.simps) simp
      next
        case (Response status b)
        show ?thesis
        proof (cases "status = 429 \<and> 0 < retries")
          case True
          have "fst (fetchRawDataPage ctx fetch sourceId tagSlug offset limit (retries - 1)
                       (Suc attempt)) = Inr ps"
            using "1.prems" start end' Response True
            by (subst (asm) fetchRawDataPage.simps) (simp split: prod.splits)
          then show ?thesis
            using "1.IH" [OF start end' Response] True by simp
        next
          case False
          then have "page_points b = Inr ps"
            using "1.prems" start end' Response
            by (subst (asm) fetchRawDataPage.simps) auto
          then show ?thesis
            using page_points_served [of ?req fetch attempt status b ps]
              page_request_page_query Response by simp
        qed
      qed
    qed
  qed
qed

lemma data_points_served:
  assumes "page_query req" and "data_points (fetch req attempt) = Inr ps"
  shows "set ps \<subseteq> served_points fetch"
proof -
  obtain status where "fetch req attempt = Response status (Json (Some (Some ps)))"
    using assms(2)
    by (auto simp: data_points_def split: response.splits body.splits option.splits)
  then show ?thesis using assms(1) by (auto simp: served_points_def)
qed

lemma sequential_shape:
  "getAllRawMetricsSequential ctx fetch sourceId tagSlugs hasNext offset metrics = Some (Inr ms)
   \<Longrightarrow> \<exists>more lp. getLastPointOfPreviousPeriod ctx fetch sourceId tagSlugs = Inr lp
                  \<and> ms = metrics @ more @ option_list lp
                  \<and> set more \<subseteq> served_points fetch"
proof (induction arbitrary: ctx fetch sourceId tagSlugs hasNext offset metrics ms
       rule: getAllRawMetricsSequential.fixp_induct)
  case 1
  have adm: "option.admissible
     (\<lambda>f. \<forall>x y. f x = Some y \<longrightarrow>
        (case x of
           ((((((ctx, fetch), sourceId), tagSlugs), hasNext), offset), metrics) \<Rightarrow>
             \<forall>ms. y = Inr ms \<longrightarrow>
               (\<exists>more lp. getLastPointOfPreviousPeriod ctx fetch sourceId tagSlugs = Inr lp
                  \<and> ms = metrics @ more @ option_list lp
                  \<and> set more \<subseteq> served_points fetch)))"
    by (rule option_admissible)
  show ?case
    by (rule back_subst [where P = option.admissible, OF adm]) (auto simp: fun_eq_iff)
next
  case 2
  then show ?case by simp
next
  case (3 f)
  show ?case
  proof (cases hasNext)
    case False
    then show ?thesis
      using "3.prems"
      by (auto simp: await_def option_list_def split: sum.splits option.splits)
  next
    case True
    then obtain start end' points where
      p: "data_points (fetch (sequential_request start end' sourceId tagSlugs offset) 0)
          = Inr points"
      and r: "f ctx fetch sourceId tagSlugs (length points = 5000) (offset + 5000)
                (metrics @ points) = Some (Inr ms)"
      using "3.prems" by (auto split: sum.splits)
    obtain more lp where
      "getLastPointOfPreviousPeriod ctx fetch sourceId tagSlugs = Inr lp"
      "ms = (metrics @ points) @ more @ option_list lp"
      "set more \<subseteq> served_points fetch"
      using "3.IH" [OF r] by blast
    moreover have "set points \<subseteq> served_points fetch"
      using data_points_served
        [of "sequential_request start end' sourceId tagSlugs offset" fetch 0 points]
        sequential_request_page_query p by simp
    ultimately show ?thesis
      by (intro exI [of _ "points @ more"] exI [of _ lp]) simp
  qed
qed

lemma all_results_served:
  assumes "all_results (map (\<lambda>i. fst (fetchRawDataPage ctx fetch sourceId tagSlug (g i)
                                      limit retries attempt)) is) = Inr pageResults"
  shows "set (concat pageResults) \<subseteq> served_points fetch"
proof -
  have "list_all2 (\<lambda>i ps. fst (fetchRawDataPage ctx fetch sourceId tagSlug (g i)
                                 limit retries attempt) = Inr ps) is pageResults"
    using assms by (rule all_results_Inr)
  then have "\<forall>ps\<in>set pageResults. set ps \<subseteq> served_points fetch"
    by (induction rule: list_all2_induct) (auto dest: fetchRawDataPage_served)
  then show ?thesis by auto
qed

lemma parallel_shape:
  assumes "getAllRawMetricsParallel ctx fetch sourceId tagSlugs = Inr ms"
  shows "\<exists>data lp. getLastPointOfPreviousPeriod ctx fetch sourceId tagSlugs = Inr lp
                  \<and> mset ms = mset (data @ option_list lp)
                  \<and> set data \<subseteq> served_points fetch"
proof -
  obtain c where c: "getTotalCount ctx fetch sourceId (first_slug tagSlugs) = Inr c"
    using assms by (auto simp: getAllRawMetricsParallel_def await_def Let_def split: sum.splits)
  consider "c = Fin 0" | "c \<noteq> Fin 0" "jle c (Fin 5000)" | "c \<noteq> Fin 0" "\<not> jle c (Fin 5000)"
    by blast
  then show ?thesis
  proof cases
    case 1
    then obtain lp where "getLastPointOfPreviousPeriod ctx fetch sourceId tagSlugs = Inr lp"
      "ms = option_list lp"
      using assms c
      by (auto simp: getAllRawMetricsParallel_def await_def Let_def option_list_def
          split: sum.splits option.splits)
    then show ?thesis by (intro exI [of _ "[]"] exI [of _ lp]) simp
  next
    case 2
    then obtain data lp where
      d: "fst (fetchRawDataPage ctx fetch sourceId (first_slug tagSlugs) 0 5000 3 0) = Inr data"
      and "getLastPointOfPreviousPeriod ctx fetch sourceId tagSlugs = Inr lp"
      and "ms = data @ option_list lp"
      using assms c
      by (auto simp: getAllRawMetricsParallel_def await_def Let_def option_list_def
          split: sum.splits option.splits)
    moreover have "set data \<subseteq> served_points fetch"
      using d by (rule fetchRawDataPage_served)
    ultimately show ?thesis by (intro exI [of _ data] exI [of _ lp]) simp
  next
    case 3
    then obtain r pageResults lp where
      "c = Fin r"
      and res: "all_results (map (\<lambda>i. fst (fetchRawDataPage ctx fetch sourceId
                                      (first_slug tagSlugs) (i * 5000) 5000 3 0))
                          [0..<nat \<lceil>r / 5000\<rceil>]) = Inr pageResults"
      and "getLastPointOfPreviousPeriod ctx fetch sourceId tagSlugs = Inr lp"
      and "ms = Array_sort by_time (concat pageResults @ option_list lp)"
      using assms c
      by (auto simp: getAllRawMetricsParallel_def await_def Let_def option_list_def
          split: sum.splits option.splits jsnum.splits if_splits)
    moreover have "set (concat pageResults) \<subseteq> served_points fetch"
      using res by (rule all_results_served)
    ultimately show ?thesis
      by (intro exI [of _ "concat pageResults"] exI [of _ lp]) (simp add: mset_Array_sort)
  qed
qed

lemma backfill_time:
  assumes "getLastPointOfPreviousPeriod ctx fetch sourceId tagSlugs = Inr (Some p)"
  shows "toIXONISOString (timeRange_from ctx) = Inr (m_time p)"
  using assms
  by (auto simp: getLastPointOfPreviousPeriod_def await_def split: sum.splits list.splits)

text \<open>
  Claim C7, as the code has it. Let the query for the point before the window answer
  \<^verbatim>\<open>lp\<close>. A point it answers carries the time \<^verbatim>\<open>_toIXONISOString\<close> writes for the window
  start, which for a start in the years 1970 to 9999 parses to the start truncated to
  whole seconds. Every sequence a strategy returns consists of points served by page
  queries and of \<^verbatim>\<open>lp\<close>, at most once: appended by the sequential strategy, merged in by
  the count-prefetch strategy.
\<close>

theorem backfill_once:
  assumes "getLastPointOfPreviousPeriod ctx fetch sourceId tagSlugs = Inr lp"
  shows "(\<forall>p. lp = Some p \<longrightarrow>
            toIXONISOString (timeRange_from ctx) = Inr (m_time p)
            \<and> (0 \<le> timeRange_from ctx \<and> timeRange_from ctx < 253402300800000 \<longrightarrow>
                 Date_parse (m_time p)
                 = Fin (of_int (timeRange_from ctx - timeRange_from ctx mod 1000))))
         \<and> (\<forall>ms. getAllRawMetricsParallel ctx fetch sourceId tagSlugs = Inr ms \<longrightarrow>
               (\<exists>data. mset ms = mset (data @ option_list lp)
                       \<and> set data \<subseteq> served_points fetch))
         \<and> (\<forall>ms. getAllRawMetricsSequential ctx fetch sourceId tagSlugs True 0 [] = Some (Inr ms)
               \<longrightarrow> (\<exists>data. ms = data @ option_list lp \<and> set data \<subseteq> served_points fetch))"
proof (intro conjI allI impI)
  fix p assume "lp = Some p"
  then show "toIXONISOString (timeRange_from ctx) = Inr (m_time p)"
    using assms backfill_time by simp
next
  fix p
  assume lp: "lp = Some p"
    and r: "0 \<le> timeRange_from ctx \<and> timeRange_from ctx < 253402300800000"
  have "toIXONISOString (timeRange_from ctx) = Inr (m_time p)"
    using assms lp backfill_time by simp
  then show "Date_parse (m_time p)
             = Fin (of_int (timeRange_from ctx - timeRange_from ctx mod 1000))"
    using Date_parse_toIXONISOString [of "timeRange_from ctx"] r by auto
next
  fix ms assume "getAllRawMetricsParallel ctx fetch sourceId tagSlugs = Inr ms"
  then show "\<exists>data. mset ms = mset (data @ option_list lp) \<and> set data \<subseteq> served_points fetch"
    using parallel_shape assms by fastforce
next
  fix ms
  assume "getAllRawMetricsSequential ctx fetch sourceId tagSlugs True 0 [] = Some (Inr ms)"
  then show "\<exists>data. ms = data @ option_list lp \<and> set data \<subseteq> served_points fetch"
    using sequential_shape [of ctx fetch sourceId tagSlugs True 0 "[]" ms] assms by auto
qed

lemma toIXONISOString_1500: "toIXONISOString 1500 = Inr ''1970-01-01T00:00:01Z''"
  by code_simp

lemma Date_parse_1s: "Date_parse ''1970-01-01T00:00:01Z'' = Fin 1000"
  by code_simp

lemma late_from:
  "toIXONISOString (timeRange_from \<lparr>timeRange_from = 1500, timeRange_to = 60000\<rparr>)
   = Inr ''1970-01-01T00:00:01Z''"
  by (simp add: toIXONISOString_1500)

lemma late_to:
  "toIXONISOString (timeRange_to \<lparr>timeRange_from = 1500, timeRange_to = 60000\<rparr>)
   = Inr ''1970-01-01T00:01:00Z''"
  by (simp add: toIXONISOString_60000)

theorem backfill_once_witness:
  "getLastPointOfPreviousPeriod \<lparr>timeRange_from = 1500, timeRange_to = 60000\<rparr>
     (synthetic_backend [\<lparr>m_time = ''1970-01-01T00:00:10Z'', m_values = [(''tag'', Fin 1)]\<rparr>]
        (Some \<lparr>m_time = ''1969-12-31T23:59:00Z'', m_values = [(''tag'', Fin 7)]\<rparr>))
     ''source'' [''tag'']
   = Inr (Some \<lparr>m_time = ''1970-01-01T00:00:01Z'', m_values = [(''tag'', Fin 7)]\<rparr>)
   \<and> toIXONISOString 1500 = Inr ''1970-01-01T00:00:01Z''
   \<and> Date_parse ''1970-01-01T00:00:01Z'' = Fin 1000
   \<and> getAllRawMetricsParallel \<lparr>timeRange_from = 1500, timeRange_to = 60000\<rparr>
     (synthetic_backend [\<lparr>m_time = ''1970-01-01T00:00:10Z'', m_values = [(''tag'', Fin 1)]\<rparr>]
        (Some \<lparr>m_time = ''1969-12-31T23:59:00Z'', m_values = [(''tag'', Fin 7)]\<rparr>))
     ''source'' [''tag'']
   = Inr [\<lparr>m_time = ''1970-01-01T00:00:10Z'', m_values = [(''tag'', Fin 1)]\<rparr>,
          \<lparr>m_time = ''1970-01-01T00:00:01Z'', m_values = [(''tag'', Fin 7)]\<rparr>]
   \<and> getAllRawMetricsSequential \<lparr>timeRange_from = 1500, timeRange_to = 60000\<rparr>
     (synthetic_backend [\<lparr>m_time = ''1970-01-01T00:00:10Z'', m_values = [(''tag'', Fin 1)]\<rparr>]
        (Some \<lparr>m_time = ''1969-12-31T23:59:00Z'', m_values = [(''tag'', Fin 7)]\<rparr>))
     ''source'' [''tag''] True 0 []
   = Some (Inr [\<lparr>m_time = ''1970-01-01T00:00:10Z'', m_values = [(''tag'', Fin 1)]\<rparr>,
                \<lparr>m_time = ''1970-01-01T00:00:01Z'', m_values = [(''tag'', Fin 7)]\<rparr>])
   \<and> (\<exists>data.
        mset [\<lparr>m_time = ''1970-01-01T00:00:10Z'', m_values = [(''tag'', Fin 1)]\<rparr>,
              \<lparr>m_time = ''1970-01-01T00:00:01Z'', m_values = [(''tag'', Fin 7)]\<rparr>]
        = mset (data @ [\<lparr>m_time = ''1970-01-01T00:00:01Z'', m_values = [(''tag'', Fin 7)]\<rparr>])
        \<and> set data \<subseteq> served_points
             (synthetic_backend
                [\<lparr>m_time = ''1970-01-01T00:00:10Z'', m_values = [(''tag'', Fin 1)]\<rparr>]
                (Some \<lparr>m_time = ''1969-12-31T23:59:00Z'', m_values = [(''tag'', Fin 7)]\<rparr>)))
   \<and> (\<exists>data.
        [\<lparr>m_time = ''1970-01-01T00:00:10Z'', m_values = [(''tag'', Fin 1)]\<rparr>,
         \<lparr>m_time = ''1970-01-01T00:00:01Z'', m_values = [(''tag'', Fin 7)]\<rparr>]
        = data @ [\<lparr>m_time = ''1970-01-01T00:00:01Z'', m_values = [(''tag'', Fin 7)]\<rparr>]
        \<and> set data \<subseteq> served_points
             (synthetic_backend
                [\<lparr>m_time = ''1970-01-01T00:00:10Z'', m_values = [(''tag'', Fin 1)]\<rparr>]
                (Some \<lparr>m_time = ''1969-12-31T23:59:00Z'', m_values = [(''tag'', Fin 7)]\<rparr>)))"
proof -
  let ?W = "\<lparr>timeRange_from = 1500, timeRange_to = 60000\<rparr>"
  let ?p = "\<lparr>m_time = ''1970-01-01T00:00:10Z'', m_values = [(''tag'', Fin 1)]\<rparr>"
  let ?q = "\<lparr>m_time = ''1969-12-31T23:59:00Z'', m_values = [(''tag'', Fin 7)]\<rparr>"
  let ?b = "\<lparr>m_time = ''1970-01-01T00:00:01Z'', m_values = [(''tag'', Fin 7)]\<rparr>"
  let ?B = "synthetic_backend [?p] (Some ?q)"
  have l: "getLastPointOfPreviousPeriod ?W ?B ''source'' [''tag''] = Inr (Some ?b)"
    by (simp add: synthetic_backend_def scripted_before [OF late_from])
  have p: "getAllRawMetricsParallel ?W ?B ''source'' [''tag''] = Inr [?p, ?b]"
    by (simp add: getAllRawMetricsParallel_def synthetic_backend_def await_def Let_def
        scripted_count [OF late_from late_to]
        scripted_page [OF late_from late_to]
        scripted_before [OF late_from])
  have s: "getAllRawMetricsSequential ?W ?B ''source'' [''tag''] True 0 [] = Some (Inr [?p, ?b])"
    using sequential_synthetic
      [OF late_from late_to, of "[''tag'']" "[?p]" "Some ?q" "''source''" 0 "[]"]
    by (simp add: backfill_def)
  show ?thesis
    using backfill_once [OF l] l p s by (simp add: option_list_def)
qed

text \<open>A window that starts 1500 milliseconds after the epoch: the time of the point before
  it reads as 1000.\<close>

theorem backfill_time_truncated:
  "getLastPointOfPreviousPeriod \<lparr>timeRange_from = 1500, timeRange_to = 60000\<rparr>
     (synthetic_backend [\<lparr>m_time = ''1970-01-01T00:00:10Z'', m_values = [(''tag'', Fin 1)]\<rparr>]
        (Some \<lparr>m_time = ''1969-12-31T23:59:00Z'', m_values = [(''tag'', Fin 7)]\<rparr>))
     ''source'' [''tag'']
   = Inr (Some \<lparr>m_time = ''1970-01-01T00:00:01Z'', m_values = [(''tag'', Fin 7)]\<rparr>)
   \<and> Date_parse ''1970-01-01T00:00:01Z'' = Fin 1000
   \<and> Fin 1000 \<noteq> Fin (of_int (timeRange_from \<lparr>timeRange_from = 1500, timeRange_to = 60000\<rparr>))"
  by (simp add: synthetic_backend_def scripted_before [OF late_from] Date_parse_1s)

section \<open>The scheduler's contract\<close>

lemma sched_inv_initial: "1 \<le> maxConcurrent \<Longrightarrow> sched_inv tasks maxConcurrent initial"
  by (simp add: sched_inv_def initial_def)

lemma finite_executing: "sched_inv tasks maxConcurrent s \<Longrightarrow> finite (executing s)"
  unfolding sched_inv_def by (meson finite_atLeastLessThan finite_subset)

lemma sched_invD:
  assumes "sched_inv tasks maxConcurrent s"
  shows "next_index s \<le> length tasks"
    and "started s = [0..<next_index s]"
    and "executing s \<subseteq> {0..<next_index s}"
    and "card (executing s) \<le> maxConcurrent"
    and "pc s \<noteq> AwaitRace \<Longrightarrow> card (executing s) < maxConcurrent"
    and "\<And>i v. results s i = Some v \<Longrightarrow> tasks ! i = Inr v"
    and "\<And>i v. i < next_index s \<Longrightarrow> i \<notin> executing s \<Longrightarrow> tasks ! i = Inr v
           \<Longrightarrow> results s i = Some v"
    and "pc s = AwaitAll \<or> pc s = Returned \<Longrightarrow> next_index s = length tasks"
    and "pc s = Returned \<Longrightarrow> executing s = {}"
  using assms unfolding sched_inv_def by blast+

lemma sched_invI:
  assumes "next_index s \<le> length tasks"
    and "started s = [0..<next_index s]"
    and "executing s \<subseteq> {0..<next_index s}"
    and "card (executing s) \<le> maxConcurrent"
    and "pc s \<noteq> AwaitRace \<Longrightarrow> card (executing s) < maxConcurrent"
    and "\<And>i v. results s i = Some v \<Longrightarrow> tasks ! i = Inr v"
    and "\<And>i v. i < next_index s \<Longrightarrow> i \<notin> executing s \<Longrightarrow> tasks ! i = Inr v
           \<Longrightarrow> results s i = Some v"
    and "pc s = AwaitAll \<or> pc s = Returned \<Longrightarrow> next_index s = length tasks"
    and "pc s = Returned \<Longrightarrow> executing s = {}"
  shows "sched_inv tasks maxConcurrent s"
  using assms unfolding sched_inv_def by blast

lemma start_case:
  assumes inv: "sched_inv tasks maxConcurrent s"
    and run: "pc s = Running" and more: "next_index s < length tasks"
    and n: "next_index s' = Suc (next_index s)"
    and st: "started s' = started s @ [next_index s]"
    and ex: "executing s' = insert (next_index s) (executing s)"
    and rs: "results s' = results s"
    and pc: "pc s' = (if maxConcurrent \<le> card (insert (next_index s) (executing s))
                      then AwaitRace else Running)"
  shows "sched_inv tasks maxConcurrent s'"
proof (rule sched_invI)
  note d = sched_invD [OF inv]
  have fin: "finite (executing s)" using inv by (rule finite_executing)
  have new: "next_index s \<notin> executing s" using d(3) by auto
  have c: "card (executing s') = Suc (card (executing s))"
    unfolding ex using fin new by simp
  have lt: "card (executing s) < maxConcurrent" using d(5) run by simp
  show "next_index s' \<le> length tasks" using more n by simp
  show "started s' = [0..<next_index s']" using d(2) st n by simp
  show "executing s' \<subseteq> {0..<next_index s'}" using d(3) ex n by auto
  show "card (executing s') \<le> maxConcurrent" using c lt by simp
  show "card (executing s') < maxConcurrent" if "pc s' \<noteq> AwaitRace"
    using that pc c ex by (simp split: if_splits)
  show "tasks ! i = Inr v" if "results s' i = Some v" for i v
    using that d(6) rs by simp
  show "results s' i = Some v"
    if "i < next_index s'" "i \<notin> executing s'" "tasks ! i = Inr v" for i v
    using that d(7) [of i v] n ex rs by (simp add: less_Suc_eq)
  show "next_index s' = length tasks" if "pc s' = AwaitAll \<or> pc s' = Returned"
    using that pc by (simp split: if_splits)
  show "executing s' = {}" if "pc s' = Returned"
    using that pc by (simp split: if_splits)
qed

lemma settle_case:
  assumes inv: "sched_inv tasks maxConcurrent s"
    and i: "i \<in> executing s" and busy: "pc s \<noteq> Running"
    and n: "next_index s' = next_index s"
    and st: "started s' = started s"
    and ex: "executing s' = executing s - {i}"
    and rs: "results s' = (case tasks ! i of Inr v \<Rightarrow> (results s)(i \<mapsto> v) | Inl e \<Rightarrow> results s)"
    and pc: "pc s' = (if pc s = AwaitRace
                 then RaceSettled (case tasks ! i of Inr v \<Rightarrow> None | Inl e \<Rightarrow> Some e)
                 else if pc s = AwaitAll
                 then (case tasks ! i of Inr v \<Rightarrow> AwaitAll | Inl e \<Rightarrow> AllRejected e)
                 else pc s)"
  shows "sched_inv tasks maxConcurrent s'"
proof (rule sched_invI)
  note d = sched_invD [OF inv]
  have fin: "finite (executing s)" using inv by (rule finite_executing)
  have c: "card (executing s') < card (executing s)"
    unfolding ex using fin i by (rule card_Diff1_less)
  have rs': "results s' j = (if j = i then (case tasks ! i of Inr v \<Rightarrow> Some v
                                            | Inl e \<Rightarrow> results s i)
                            else results s j)" for j
    unfolding rs by (cases "tasks ! i") simp_all
  have pc': "pc s' = AwaitAll \<or> pc s' = Returned \<Longrightarrow> pc s = AwaitAll \<or> pc s = Returned"
  proof (cases "pc s = AwaitRace")
    case True
    then show "pc s' = AwaitAll \<or> pc s' = Returned \<Longrightarrow> ?thesis" using pc by simp
  next
    case False
    then show "pc s' = AwaitAll \<or> pc s' = Returned \<Longrightarrow> ?thesis"
      using pc by (cases "pc s = AwaitAll") simp_all
  qed
  have ret: "pc s' = Returned \<Longrightarrow> pc s = Returned"
  proof (cases "pc s = AwaitRace")
    case True
    then show "pc s' = Returned \<Longrightarrow> ?thesis" using pc by simp
  next
    case False
    show "pc s' = Returned \<Longrightarrow> ?thesis"
    proof (cases "pc s = AwaitAll")
      case True
      then show "pc s' = Returned \<Longrightarrow> ?thesis"
        using pc by (cases "tasks ! i") simp_all
    next
      case False
      then show "pc s' = Returned \<Longrightarrow> ?thesis"
        using pc \<open>pc s \<noteq> AwaitRace\<close> by simp
    qed
  qed
  show "next_index s' \<le> length tasks" using d(1) n by simp
  show "started s' = [0..<next_index s']" using d(2) st n by simp
  show "executing s' \<subseteq> {0..<next_index s'}" using d(3) ex n by auto
  show "card (executing s') \<le> maxConcurrent" using c d(4) by simp
  show "card (executing s') < maxConcurrent" using c d(4) by simp
  show "tasks ! j = Inr v" if r: "results s' j = Some v" for j v
  proof (cases "j = i")
    case True
    show ?thesis
    proof (cases "tasks ! i")
      case (Inl e)
      then have "results s i = Some v" using r True rs' [of j] by simp
      then show ?thesis using d(6) True by simp
    next
      case (Inr w)
      then show ?thesis using r True rs' [of j] by simp
    qed
  next
    case False
    then have "results s j = Some v" using r rs' [of j] by simp
    then show ?thesis by (rule d(6))
  qed
  show "results s' j = Some v"
    if a: "j < next_index s'" "j \<notin> executing s'" "tasks ! j = Inr v" for j v
  proof (cases "j = i")
    case True
    then show ?thesis using a(3) rs' [of j] by simp
  next
    case False
    then have "j \<notin> executing s" using a(2) ex by simp
    then have "results s j = Some v" using a(1,3) n d(7) [of j v] by simp
    then show ?thesis using False rs' [of j] by simp
  qed
  show "next_index s' = length tasks" if "pc s' = AwaitAll \<or> pc s' = Returned"
    using pc' [OF that] d(8) n by simp
  show "executing s' = {}" if "pc s' = Returned"
    using ret [OF that] d(9) ex by simp
qed

lemma pc_case:
  assumes inv: "sched_inv tasks maxConcurrent s"
    and n: "next_index s' = next_index s"
    and st: "started s' = started s"
    and ex: "executing s' = executing s"
    and rs: "results s' = results s"
    and waiting: "pc s \<noteq> AwaitRace"
    and all: "pc s' = AwaitAll \<or> pc s' = Returned \<Longrightarrow> next_index s = length tasks"
    and ret: "pc s' = Returned \<Longrightarrow> executing s = {}"
  shows "sched_inv tasks maxConcurrent s'"
proof (rule sched_invI)
  note d = sched_invD [OF inv]
  show "next_index s' \<le> length tasks" using d(1) n by simp
  show "started s' = [0..<next_index s']" using d(2) st n by simp
  show "executing s' \<subseteq> {0..<next_index s'}" using d(3) ex n by simp
  show "card (executing s') \<le> maxConcurrent" using d(4) ex by simp
  show "card (executing s') < maxConcurrent" using d(5) waiting ex by simp
  show "tasks ! i = Inr v" if "results s' i = Some v" for i v
    using that d(6) rs by simp
  show "results s' i = Some v"
    if "i < next_index s'" "i \<notin> executing s'" "tasks ! i = Inr v" for i v
    using that d(7) [of i v] n ex rs by simp
  show "next_index s' = length tasks" if "pc s' = AwaitAll \<or> pc s' = Returned"
    using that all n by simp
  show "executing s' = {}" if "pc s' = Returned"
    using that ret ex by simp
qed

lemma sched_inv_step:
  assumes "sched_inv tasks maxConcurrent s" and "sched_step tasks maxConcurrent s s'"
  shows "sched_inv tasks maxConcurrent s'"
  using assms(2)
proof cases
  case start
  show ?thesis
    by (rule start_case [OF assms(1) start(2,3)]) (simp_all add: start(1))
next
  case submitted
  show ?thesis
    by (rule pc_case [OF assms(1)]) (simp_all add: submitted)
next
  case (settle i)
  show ?thesis
    by (rule settle_case [OF assms(1) settle(2,3)]) (simp_all add: settle(1))
next
  case resume
  show ?thesis
    by (rule pc_case [OF assms(1)]) (simp_all add: resume)
next
  case (race_rejected e)
  show ?thesis
    by (rule pc_case [OF assms(1)]) (simp_all add: race_rejected)
next
  case all_fulfilled
  show ?thesis
    using sched_invD(8) [OF assms(1)]
    by (intro pc_case [OF assms(1)]) (simp_all add: all_fulfilled)
next
  case (all_rejected e)
  show ?thesis
    by (rule pc_case [OF assms(1)]) (simp_all add: all_rejected)
qed

lemma reachable_inv:
  assumes "reachable tasks maxConcurrent s" and "1 \<le> maxConcurrent"
  shows "sched_inv tasks maxConcurrent s"
  using assms
proof (induction rule: reachable.induct)
  case init
  then show ?case by (rule sched_inv_initial)
next
  case (step s s')
  then show ?case using sched_inv_step by blast
qed

lemma all_results_nth:
  "all_results rs = Inr vs \<Longrightarrow> length vs = length rs \<and> (\<forall>i<length rs. rs ! i = Inr (vs ! i))"
proof (induction rs arbitrary: vs)
  case Nil
  then show ?case by simp
next
  case (Cons r rs)
  then obtain x xs where "r = Inr x" "all_results rs = Inr xs" "vs = x # xs"
    by (auto split: sum.splits)
  then show ?case using Cons.IH [of xs] by (auto simp: nth_Cons split: nat.splits)
qed

lemma race_nonempty:
  assumes "reachable tasks maxConcurrent s"
  shows "pc s = AwaitRace \<longrightarrow> executing s \<noteq> {}"
  using assms
proof (induction rule: reachable.induct)
  case init
  show ?case by (simp add: initial_def)
next
  case (step s s')
  from step(2) show ?case
  proof cases
    case (settle i)
    show ?thesis
    proof (cases "pc s = AwaitRace")
      case True
      then show ?thesis by (simp add: settle(1))
    next
      case False
      then show ?thesis
        by (cases "pc s = AwaitAll"; cases "tasks ! i") (simp_all add: settle(1))
    qed
  qed simp_all
qed

lemma thrown_is_task_error:
  assumes "reachable tasks maxConcurrent s" and "1 \<le> maxConcurrent"
  shows "(pc s = RaceSettled (Some e) \<or> pc s = AllRejected e \<or> pc s = Thrown e)
         \<longrightarrow> Inl e \<in> set tasks"
  using assms
proof (induction rule: reachable.induct)
  case init
  show ?case by (simp add: initial_def)
next
  case (step s s')
  have inv: "sched_inv tasks maxConcurrent s" using step(1,4) by (rule reachable_inv)
  note ih = step(3) [OF step(4)]
  from step(2) show ?case
  proof cases
    case (settle i)
    have "i < length tasks"
      using settle(2) sched_invD(1,3) [OF inv] by auto
    then have mem: "tasks ! i \<in> set tasks" by simp
    show ?thesis
    proof (cases "pc s = AwaitRace")
      case True
      then show ?thesis using mem by (cases "tasks ! i") (auto simp: settle(1))
    next
      case False
      show ?thesis
      proof (cases "pc s = AwaitAll")
        case True
        then show ?thesis using mem by (cases "tasks ! i") (auto simp: settle(1))
      next
        case False
        then show ?thesis using ih \<open>pc s \<noteq> AwaitRace\<close> by (simp add: settle(1))
      qed
    qed
  next
    case start
    then show ?thesis by (simp split: if_splits)
  next
    case (race_rejected e')
    then show ?thesis using ih by auto
  next
    case (all_rejected e')
    then show ?thesis using ih by auto
  qed simp_all
qed

lemma sched_progress:
  assumes inv: "sched_inv tasks maxConcurrent s"
    and race: "pc s = AwaitRace \<longrightarrow> executing s \<noteq> {}"
    and live: "pc s \<noteq> Returned" "\<forall>e. pc s \<noteq> Thrown e"
  shows "\<exists>s'. sched_step tasks maxConcurrent s s'"
proof (cases "pc s")
  case Running
  show ?thesis
  proof (cases "next_index s < length tasks")
    case True
    show ?thesis using sched_step.start [OF Running True] by blast
  next
    case False
    then have "next_index s = length tasks" using sched_invD(1) [OF inv] by simp
    then show ?thesis using sched_step.submitted [OF Running] by blast
  qed
next
  case AwaitRace
  then obtain i where "i \<in> executing s" using race by blast
  then show ?thesis using sched_step.settle [of i s] AwaitRace by (metis phase.distinct(1))
next
  case (RaceSettled r)
  show ?thesis
  proof (cases r)
    case None
    then show ?thesis using sched_step.resume RaceSettled by blast
  next
    case (Some e)
    then show ?thesis using sched_step.race_rejected RaceSettled by blast
  qed
next
  case AwaitAll
  show ?thesis
  proof (cases "executing s = {}")
    case True
    then show ?thesis using sched_step.all_fulfilled AwaitAll by blast
  next
    case False
    then obtain i where "i \<in> executing s" by blast
    then show ?thesis using sched_step.settle [of i s] AwaitAll by (metis phase.distinct(5))
  qed
next
  case (AllRejected e)
  then show ?thesis using sched_step.all_rejected by blast
next
  case Returned
  then show ?thesis using live by simp
next
  case (Thrown e)
  then show ?thesis using live by simp
qed

lemma sched_decrease:
  assumes inv: "sched_inv tasks maxConcurrent s"
    and st: "sched_step tasks maxConcurrent s s'"
  shows "remaining tasks s' < remaining tasks s"
  using st
proof cases
  case start
  have fin: "finite (executing s)" using inv by (rule finite_executing)
  have new: "next_index s \<notin> executing s" using sched_invD(3) [OF inv] by auto
  have c: "card (insert (next_index s) (executing s)) = Suc (card (executing s))"
    using fin new by simp
  have w: "weight (if maxConcurrent \<le> Suc (card (executing s)) then AwaitRace else Running) \<le> 3"
    by simp
  show ?thesis
    unfolding remaining_def start(1) using start(2,3) c w by simp
next
  case submitted
  then show ?thesis by (simp add: remaining_def)
next
  case (settle i)
  have fin: "finite (executing s)" using inv by (rule finite_executing)
  have c: "card (executing s - {i}) < card (executing s)"
    using fin settle(2) by (rule card_Diff1_less)
  have w: "weight (if pc s = AwaitRace
                 then RaceSettled (case tasks ! i of Inr v \<Rightarrow> None | Inl e \<Rightarrow> Some e)
                 else if pc s = AwaitAll
                 then (case tasks ! i of Inr v \<Rightarrow> AwaitAll | Inl e \<Rightarrow> AllRejected e)
                 else pc s) = weight (pc s)"
    by (cases "tasks ! i") auto
  show ?thesis
    unfolding remaining_def settle(1) using c w by simp
next
  case resume
  then show ?thesis by (simp add: remaining_def)
next
  case (race_rejected e)
  then show ?thesis by (simp add: remaining_def)
next
  case all_fulfilled
  then show ?thesis by (simp add: remaining_def)
next
  case (all_rejected e)
  then show ?thesis by (simp add: remaining_def)
qed


lemma remaining_bound:
  assumes "reachable tasks maxConcurrent s" and "1 \<le> maxConcurrent"
  shows "remaining tasks s \<le> 3 * length tasks + 2"
  using assms
proof (induction rule: reachable.induct)
  case init
  show ?case by (simp add: remaining_def initial_def)
next
  case (step s s')
  have "sched_inv tasks maxConcurrent s" using step(1,4) by (rule reachable_inv)
  then have "remaining tasks s' < remaining tasks s" using step(2) by (rule sched_decrease)
  then show ?case using step(3) [OF step(4)] by simp
qed

lemma reaches_final:
  assumes "reachable tasks maxConcurrent s" and "1 \<le> maxConcurrent"
  shows "\<exists>t. rtranclp (sched_step tasks maxConcurrent) s t
             \<and> (pc t = Returned \<or> (\<exists>e. pc t = Thrown e))"
  using assms(1)
proof (induction s rule: measure_induct_rule [where f = "remaining tasks"])
  case (less s)
  show ?case
  proof (cases "pc s = Returned \<or> (\<exists>e. pc s = Thrown e)")
    case True
    then show ?thesis by blast
  next
    case False
    have inv: "sched_inv tasks maxConcurrent s" using less(2) assms(2) by (rule reachable_inv)
    have "\<exists>s'. sched_step tasks maxConcurrent s s'"
      using inv race_nonempty [OF less(2)] False by (intro sched_progress) simp_all
    then obtain s' where s': "sched_step tasks maxConcurrent s s'" ..
    have "remaining tasks s' < remaining tasks s" using inv s' by (rule sched_decrease)
    moreover have "reachable tasks maxConcurrent s'" using less(2) s' by (rule reachable.step)
    ultimately obtain t where t: "rtranclp (sched_step tasks maxConcurrent) s' t"
      "pc t = Returned \<or> (\<exists>e. pc t = Thrown e)"
      using less(1) by blast
    have "rtranclp (sched_step tasks maxConcurrent) s t"
      using s' t(1) by (rule converse_rtranclp_into_rtranclp)
    then show ?thesis using t(2) by blast
  qed
qed

text \<open>
  Claim C2, as far as the code keeps it. For \<^verbatim>\<open>maxConcurrent\<close> of at least 1, in every
  state of every run of the scheduler: the tasks started so far are the first ones, in
  submission order; no more than \<^verbatim>\<open>maxConcurrent\<close> tasks are in flight; a filled slot
  \<^verbatim>\<open>i\<close> of \<^verbatim>\<open>results\<close> holds the result of task \<^verbatim>\<open>i\<close>. When the function has returned,
  every task was started, and slot \<^verbatim>\<open>i\<close> holds the result of task \<^verbatim>\<open>i\<close> if the task
  produced one and is empty if the task failed; with no failed task the array is the
  results in task order, whatever the order of completion. An error the function throws
  is the error of a task. Every run ends: while the function has neither returned nor
  thrown there is a next step, and while the loop is suspended any task in flight can
  be the next to settle; every step lowers \<^const>\<open>remaining\<close>, which is at most
  \<^verbatim>\<open>3 * tasks.length + 2\<close>, and a state where the function has returned or thrown can
  be reached.
\<close>

theorem scheduler_contract:
  assumes "1 \<le> maxConcurrent" and "reachable tasks maxConcurrent s"
  shows "started s = [0..<next_index s]
         \<and> card (executing s) \<le> maxConcurrent
         \<and> (\<forall>i v. results s i = Some v \<longrightarrow> tasks ! i = Inr v)
         \<and> (pc s = Returned \<longrightarrow>
              next_index s = length tasks
              \<and> (\<forall>i<length tasks.
                    results s i = (case tasks ! i of Inr v \<Rightarrow> Some v | Inl e \<Rightarrow> None))
              \<and> (\<forall>vs. all_results tasks = Inr vs \<longrightarrow>
                    map (results s) [0..<length tasks] = map Some vs))
         \<and> (\<forall>e. pc s = Thrown e \<longrightarrow> Inl e \<in> set tasks)
         \<and> (pc s \<noteq> Returned \<and> (\<forall>e. pc s \<noteq> Thrown e) \<longrightarrow>
              (\<exists>s'. sched_step tasks maxConcurrent s s'))
         \<and> (\<forall>i\<in>executing s. pc s \<noteq> Running \<longrightarrow>
              (\<exists>s'. sched_step tasks maxConcurrent s s' \<and> executing s' = executing s - {i}))
         \<and> (\<forall>s'. sched_step tasks maxConcurrent s s' \<longrightarrow>
              remaining tasks s' < remaining tasks s)
         \<and> remaining tasks s \<le> 3 * length tasks + 2
         \<and> (\<exists>t. rtranclp (sched_step tasks maxConcurrent) s t
                  \<and> (pc t = Returned \<or> (\<exists>e. pc t = Thrown e)))"
proof -
  have inv: "sched_inv tasks maxConcurrent s"
    using assms(2,1) by (rule reachable_inv)
  note d = sched_invD [OF inv]
  have ret: "results s i = Some v"
    if "pc s = Returned" "i < length tasks" "tasks ! i = Inr v" for i v
    using that d(7) [of i v] d(8) d(9) by simp
  have slot: "results s i = (case tasks ! i of Inr v \<Rightarrow> Some v | Inl e \<Rightarrow> None)"
    if "pc s = Returned" "i < length tasks" for i
  proof (cases "tasks ! i")
    case (Inl e)
    have "results s i = None"
    proof (cases "results s i")
      case (Some v)
      then have "tasks ! i = Inr v" by (rule d(6))
      then show ?thesis using Inl by simp
    qed simp
    then show ?thesis using Inl by simp
  next
    case (Inr v)
    then show ?thesis using ret [OF that] by simp
  qed
  have arr: "map (results s) [0..<length tasks] = map Some vs"
    if "pc s = Returned" "all_results tasks = Inr vs" for vs
  proof (rule nth_equalityI)
    show "length (map (results s) [0..<length tasks]) = length (map Some vs)"
      using all_results_nth [OF that(2)] by simp
  next
    fix i assume "i < length (map (results s) [0..<length tasks])"
    then have i: "i < length tasks" by simp
    then have "tasks ! i = Inr (vs ! i)" using all_results_nth [OF that(2)] by simp
    then have "results s i = Some (vs ! i)" using ret [OF that(1) i] by simp
    then show "map (results s) [0..<length tasks] ! i = map Some vs ! i"
      using i all_results_nth [OF that(2)] by simp
  qed
  have thrown: "Inl e \<in> set tasks" if "pc s = Thrown e" for e
    using thrown_is_task_error [OF assms(2,1), of e] that by simp
  have prog: "\<exists>s'. sched_step tasks maxConcurrent s s'"
    if "pc s \<noteq> Returned \<and> (\<forall>e. pc s \<noteq> Thrown e)"
    using inv race_nonempty [OF assms(2)] that by (intro sched_progress) simp_all
  have any: "\<exists>s'. sched_step tasks maxConcurrent s s' \<and> executing s' = executing s - {i}"
    if "i \<in> executing s" "pc s \<noteq> Running" for i
  proof (intro exI conjI)
    show "sched_step tasks maxConcurrent s
       (s\<lparr>results := (case tasks ! i of Inr v \<Rightarrow> (results s)(i \<mapsto> v) | Inl e \<Rightarrow> results s),
          executing := executing s - {i},
          pc := (if pc s = AwaitRace
                 then RaceSettled (case tasks ! i of Inr v \<Rightarrow> None | Inl e \<Rightarrow> Some e)
                 else if pc s = AwaitAll
                 then (case tasks ! i of Inr v \<Rightarrow> AwaitAll | Inl e \<Rightarrow> AllRejected e)
                 else pc s)\<rparr>)"
      using that by (rule sched_step.settle)
  qed simp
  have dec: "remaining tasks s' < remaining tasks s"
    if "sched_step tasks maxConcurrent s s'" for s'
    using inv that by (rule sched_decrease)
  have bound: "remaining tasks s \<le> 3 * length tasks + 2"
    using assms(2,1) by (rule remaining_bound)
  have fin: "\<exists>t. rtranclp (sched_step tasks maxConcurrent) s t
                  \<and> (pc t = Returned \<or> (\<exists>e. pc t = Thrown e))"
    using assms(2,1) by (rule reaches_final)
  have safe: "started s = [0..<next_index s]" "card (executing s) \<le> maxConcurrent"
    "\<forall>i v. results s i = Some v \<longrightarrow> tasks ! i = Inr v"
    using d(2,4,6) by blast+
  have returned: "pc s = Returned \<longrightarrow>
              next_index s = length tasks
              \<and> (\<forall>i<length tasks.
                    results s i = (case tasks ! i of Inr v \<Rightarrow> Some v | Inl e \<Rightarrow> None))
              \<and> (\<forall>vs. all_results tasks = Inr vs \<longrightarrow>
                    map (results s) [0..<length tasks] = map Some vs)"
    using d(8) slot arr by blast
  show ?thesis
    using safe returned thrown prog any dec bound fin by blast
qed

text \<open>
  Three tasks under a limit of two: the second task completes first, the first one last;
  the state where the loop awaits the first race has a next step. The same tasks under
  the limit of ten the caller passes: all are started before the loop awaits anything.
\<close>

theorem scheduler_contract_witness:
  "reachable [Inr 10, Inr 20, Inr (30 :: nat)] 2
     \<lparr>next_index = 3, started = [0, 1, 2], executing = {},
      results = [1 \<mapsto> 20, 2 \<mapsto> 30, 0 \<mapsto> 10], pc = Returned\<rparr>
   \<and> card ({} :: nat set) \<le> 2
   \<and> map [1 \<mapsto> 20, 2 \<mapsto> 30, 0 \<mapsto> (10 :: nat)] [0..<3] = map Some [10, 20, 30]
   \<and> reachable [Inr 10, Inr 20, Inr (30 :: nat)] 2
     \<lparr>next_index = 2, started = [0, 1], executing = {1, 0}, results = Map.empty,
      pc = AwaitRace\<rparr>
   \<and> card ({1, 0} :: nat set) \<le> 2
   \<and> (\<exists>s'. sched_step [Inr 10, Inr 20, Inr (30 :: nat)] 2
          \<lparr>next_index = 2, started = [0, 1], executing = {1, 0}, results = Map.empty,
           pc = AwaitRace\<rparr> s' \<and> executing s' = {0})
   \<and> (\<exists>s'. sched_step [Inr 10, Inr 20, Inr (30 :: nat)] 2
          \<lparr>next_index = 2, started = [0, 1], executing = {1, 0}, results = Map.empty,
           pc = AwaitRace\<rparr> s' \<and> executing s' = {1})
   \<and> reachable [Inr 10, Inr 20, Inr (30 :: nat)] 10
     \<lparr>next_index = 3, started = [0, 1, 2], executing = {},
      results = [2 \<mapsto> 30, 0 \<mapsto> 10, 1 \<mapsto> 20], pc = Returned\<rparr>
   \<and> map [2 \<mapsto> 30, 0 \<mapsto> 10, 1 \<mapsto> (20 :: nat)] [0..<3] = map Some [10, 20, 30]"
proof -
  let ?T = "[Inr 10, Inr 20, Inr (30 :: nat)] :: (js_error + nat) list"
  have r1: "reachable ?T 2
     \<lparr>next_index = 1, started = [0], executing = {0}, results = Map.empty, pc = Running\<rparr>"
    using reachable.step [OF reachable.init sched_step.start, of ?T 2]
    by (simp add: initial_def)
  have r2: "reachable ?T 2
     \<lparr>next_index = 2, started = [0, 1], executing = {1, 0}, results = Map.empty,
      pc = AwaitRace\<rparr>"
    using reachable.step [OF r1 sched_step.start] by (simp add: numeral_2_eq_2 numeral_3_eq_3)
  have r3: "reachable ?T 2
     \<lparr>next_index = 2, started = [0, 1], executing = {0}, results = [1 \<mapsto> 20],
      pc = RaceSettled None\<rparr>"
    using reachable.step [OF r2 sched_step.settle [of 1]] by (simp add: numeral_2_eq_2 numeral_3_eq_3)
  have r4: "reachable ?T 2
     \<lparr>next_index = 2, started = [0, 1], executing = {0}, results = [1 \<mapsto> 20],
      pc = Running\<rparr>"
    using reachable.step [OF r3 sched_step.resume] by (simp add: numeral_2_eq_2 numeral_3_eq_3)
  have r5: "reachable ?T 2
     \<lparr>next_index = 3, started = [0, 1, 2], executing = {2, 0}, results = [1 \<mapsto> 20],
      pc = AwaitRace\<rparr>"
    using reachable.step [OF r4 sched_step.start] by (simp add: numeral_2_eq_2 numeral_3_eq_3)
  have r6: "reachable ?T 2
     \<lparr>next_index = 3, started = [0, 1, 2], executing = {0}, results = [1 \<mapsto> 20, 2 \<mapsto> 30],
      pc = RaceSettled None\<rparr>"
    using reachable.step [OF r5 sched_step.settle [of 2]] by (simp add: numeral_2_eq_2 numeral_3_eq_3)
  have r7: "reachable ?T 2
     \<lparr>next_index = 3, started = [0, 1, 2], executing = {},
      results = [1 \<mapsto> 20, 2 \<mapsto> 30, 0 \<mapsto> 10], pc = RaceSettled None\<rparr>"
    using reachable.step [OF r6 sched_step.settle [of 0]] by (simp add: numeral_2_eq_2 numeral_3_eq_3)
  have r8: "reachable ?T 2
     \<lparr>next_index = 3, started = [0, 1, 2], executing = {},
      results = [1 \<mapsto> 20, 2 \<mapsto> 30, 0 \<mapsto> 10], pc = Running\<rparr>"
    using reachable.step [OF r7 sched_step.resume] by (simp add: numeral_2_eq_2 numeral_3_eq_3)
  have r9: "reachable ?T 2
     \<lparr>next_index = 3, started = [0, 1, 2], executing = {},
      results = [1 \<mapsto> 20, 2 \<mapsto> 30, 0 \<mapsto> 10], pc = AwaitAll\<rparr>"
    using reachable.step [OF r8 sched_step.submitted] by (simp add: numeral_2_eq_2 numeral_3_eq_3)
  have r10: "reachable ?T 2
     \<lparr>next_index = 3, started = [0, 1, 2], executing = {},
      results = [1 \<mapsto> 20, 2 \<mapsto> 30, 0 \<mapsto> 10], pc = Returned\<rparr>"
    using reachable.step [OF r9 sched_step.all_fulfilled]
    by (simp add: numeral_2_eq_2 numeral_3_eq_3)
  have t1: "reachable ?T 10
     \<lparr>next_index = 1, started = [0], executing = {0}, results = Map.empty, pc = Running\<rparr>"
    using reachable.step [OF reachable.init sched_step.start, of ?T 10]
    by (simp add: initial_def)
  have t2: "reachable ?T 10
     \<lparr>next_index = 2, started = [0, 1], executing = {1, 0}, results = Map.empty,
      pc = Running\<rparr>"
    using reachable.step [OF t1 sched_step.start] by (simp add: numeral_2_eq_2 numeral_3_eq_3)
  have t3: "reachable ?T 10
     \<lparr>next_index = 3, started = [0, 1, 2], executing = {2, 1, 0}, results = Map.empty,
      pc = Running\<rparr>"
    using reachable.step [OF t2 sched_step.start] by (simp add: numeral_2_eq_2 numeral_3_eq_3)
  have t4: "reachable ?T 10
     \<lparr>next_index = 3, started = [0, 1, 2], executing = {2, 1, 0}, results = Map.empty,
      pc = AwaitAll\<rparr>"
    using reachable.step [OF t3 sched_step.submitted] by (simp add: numeral_2_eq_2 numeral_3_eq_3)
  have t5: "reachable ?T 10
     \<lparr>next_index = 3, started = [0, 1, 2], executing = {1, 0}, results = [2 \<mapsto> 30],
      pc = AwaitAll\<rparr>"
    using reachable.step [OF t4 sched_step.settle [of 2]]
    by (simp add: numeral_2_eq_2 numeral_3_eq_3)
  have t6: "reachable ?T 10
     \<lparr>next_index = 3, started = [0, 1, 2], executing = {1},
      results = [2 \<mapsto> 30, 0 \<mapsto> 10], pc = AwaitAll\<rparr>"
    using reachable.step [OF t5 sched_step.settle [of 0]]
    by (simp add: numeral_2_eq_2 numeral_3_eq_3 insert_Diff_if)
  have t7: "reachable ?T 10
     \<lparr>next_index = 3, started = [0, 1, 2], executing = {},
      results = [2 \<mapsto> 30, 0 \<mapsto> 10, 1 \<mapsto> 20], pc = AwaitAll\<rparr>"
    using reachable.step [OF t6 sched_step.settle [of 1]]
    by (simp add: numeral_2_eq_2 numeral_3_eq_3)
  have t8: "reachable ?T 10
     \<lparr>next_index = 3, started = [0, 1, 2], executing = {},
      results = [2 \<mapsto> 30, 0 \<mapsto> 10, 1 \<mapsto> 20], pc = Returned\<rparr>"
    using reachable.step [OF t7 sched_step.all_fulfilled]
    by (simp add: numeral_2_eq_2 numeral_3_eq_3)
  have c: "map [2 \<mapsto> 30, 0 \<mapsto> 10, 1 \<mapsto> (20 :: nat)] [0..<3] = map Some [10, 20, 30]"
    using scheduler_contract [OF _ t8] by (simp add: numeral_3_eq_3)
  have a: "map [1 \<mapsto> 20, 2 \<mapsto> 30, 0 \<mapsto> (10 :: nat)] [0..<3] = map Some [10, 20, 30]"
    using scheduler_contract [OF _ r10] by (simp add: numeral_3_eq_3)
  have b: "(\<exists>s'. sched_step ?T 2
          \<lparr>next_index = 2, started = [0, 1], executing = {1, 0}, results = Map.empty,
           pc = AwaitRace\<rparr> s' \<and> executing s' = {0})
     \<and> (\<exists>s'. sched_step ?T 2
          \<lparr>next_index = 2, started = [0, 1], executing = {1, 0}, results = Map.empty,
           pc = AwaitRace\<rparr> s' \<and> executing s' = {1})"
    using scheduler_contract [OF _ r2] by (simp add: two_pages insert_Diff_if)
  show ?thesis
    using a b c r10 r2 t8 by simp
qed

text \<open>
  A failure that nothing awaits: the second task fails after the first one has settled
  the race and before the loop resumes. The function returns, the slot of the failed
  task is empty, and the error is lost.
\<close>

theorem scheduler_swallows_failure:
  "reachable [Inr (10 :: nat), Inl NetworkError] 2
     \<lparr>next_index = 2, started = [0, 1], executing = {}, results = [0 \<mapsto> 10],
      pc = Returned\<rparr>
   \<and> map [0 \<mapsto> (10 :: nat)] [0..<2] = [Some 10, None]
   \<and> all_results [Inr (10 :: nat), Inl NetworkError] = Inl NetworkError"
proof -
  let ?T = "[Inr (10 :: nat), Inl NetworkError]"
  have r1: "reachable ?T 2
     \<lparr>next_index = 1, started = [0], executing = {0}, results = Map.empty, pc = Running\<rparr>"
    using reachable.step [OF reachable.init sched_step.start, of ?T 2]
    by (simp add: initial_def)
  have r2: "reachable ?T 2
     \<lparr>next_index = 2, started = [0, 1], executing = {1, 0}, results = Map.empty,
      pc = AwaitRace\<rparr>"
    using reachable.step [OF r1 sched_step.start] by (simp add: numeral_2_eq_2)
  have r3: "reachable ?T 2
     \<lparr>next_index = 2, started = [0, 1], executing = {1}, results = [0 \<mapsto> 10],
      pc = RaceSettled None\<rparr>"
    using reachable.step [OF r2 sched_step.settle [of 0]]
    by (simp add: numeral_2_eq_2 insert_Diff_if)
  have r4: "reachable ?T 2
     \<lparr>next_index = 2, started = [0, 1], executing = {}, results = [0 \<mapsto> 10],
      pc = RaceSettled None\<rparr>"
    using reachable.step [OF r3 sched_step.settle [of 1]] by (simp add: numeral_2_eq_2)
  have r5: "reachable ?T 2
     \<lparr>next_index = 2, started = [0, 1], executing = {}, results = [0 \<mapsto> 10],
      pc = Running\<rparr>"
    using reachable.step [OF r4 sched_step.resume] by simp
  have r6: "reachable ?T 2
     \<lparr>next_index = 2, started = [0, 1], executing = {}, results = [0 \<mapsto> 10],
      pc = AwaitAll\<rparr>"
    using reachable.step [OF r5 sched_step.submitted] by simp
  show ?thesis
    using reachable.step [OF r6 sched_step.all_fulfilled] by (simp add: two_pages)
qed

end
